theory Spec2Isabelle
  imports Main "HOL-Library.Word"
begin

unbundle bit_operations_syntax

section \<open>KSDynamicLinker: the binary image registry\<close>

text \<open>
  A shallow embedding of \<^verbatim>\<open>KSDynamicLinker.c\<close> for a 64-bit target:
  \<^verbatim>\<open>uintptr_t\<close>, \<^verbatim>\<open>intptr_t\<close>, \<^verbatim>\<open>vm_address_t\<close> and \<^verbatim>\<open>uint64_t\<close> are 64-bit words whose
  arithmetic wraps, \<^verbatim>\<open>uint32_t\<close> and \<^verbatim>\<open>int\<close> are 32-bit words.
\<close>

type_synonym addr = "64 word"
type_synonym u32 = "32 word"
type_synonym u64 = "64 word"

subsection \<open>Foreign memory: Mach-O headers, load commands, C strings\<close>

text \<open>
  The command that follows a header in memory, by the value of \<^verbatim>\<open>loadCmd->cmd\<close> the
  code switches on, with the fields the code reads from it.
\<close>

datatype load_command =
    LC_SEGMENT string u32 u32
  | LC_SEGMENT_64 string u64 u64
  | LC_UUID "8 word list"
  | LC_ID_DYLIB u32
  | LC_OTHER u32

text \<open>
  A \<^verbatim>\<open>const char *\<close> of doubtful validity: \<^verbatim>\<open>NULL\<close>, or a pointer together with the
  bytes that are readable starting at it (none when it points to unmapped memory).
\<close>

datatype char_ptr = NULL | Ptr "8 word list"

text \<open>The \<^verbatim>\<open>crash_info_t\<close> structure (the fields the code reads).\<close>

record crash_info_t =
  version :: u32
  message :: char_ptr
  signature :: char_ptr
  backtrace :: char_ptr
  message2 :: char_ptr

text \<open>
  What \<^verbatim>\<open>getsectiondata (header, "__DATA", "__crash_info", &size)\<close> finds: the size it
  reports, the number of bytes that are readable at the section's address, and the
  structure stored there.
\<close>

record crash_section =
  sect_size :: u64
  sect_readable :: nat
  sect_info :: crash_info_t

text \<open>
  The image a \<^verbatim>\<open>struct mach_header *\<close> points to: the header's fields, the load commands
  laid out behind it, and the crash-info section of its data segment, if it has one.
\<close>

record mach_header =
  magic :: u32
  cputype :: u32
  cpusubtype :: u32
  filetype :: u32
  ncmds :: u32
  cmds :: "load_command list"
  crash_info_sect :: "crash_section option"

text \<open>
  A header pointer is \<^verbatim>\<open>NULL\<close> (\<open>None\<close>) or an address with the image mapped there.
  Pointers are compared by address.
\<close>

type_synonym header_ptr = "(addr \<times> mach_header) option"

definition ptr_addr :: "header_ptr \<Rightarrow> addr" where
  "ptr_addr p = (case p of None \<Rightarrow> 0 | Some (a, h) \<Rightarrow> a)"

definition MH_MAGIC :: u32 where "MH_MAGIC = 0xfeedface"
definition MH_CIGAM :: u32 where "MH_CIGAM = 0xcefaedfe"
definition MH_MAGIC_64 :: u32 where "MH_MAGIC_64 = 0xfeedfacf"
definition MH_CIGAM_64 :: u32 where "MH_CIGAM_64 = 0xcffaedfe"

definition sizeof_mach_header :: addr where "sizeof_mach_header = 28"
definition sizeof_mach_header_64 :: addr where "sizeof_mach_header_64 = 32"

definition SEG_TEXT :: string where "SEG_TEXT = ''__TEXT''"

definition KSDL_MaxCrashInfoStringLength :: nat where
  "KSDL_MaxCrashInfoStringLength = 4096"

subsection \<open>The descriptor\<close>

record KSBinaryImage =
  header :: header_ptr
  vmAddress :: u64
  size_img :: u64
  name :: "string option"
  uuid :: "8 word list option"
  slide :: addr
  unloaded :: bool
  inCrashReport :: bool
  cpuType :: u32
  cpuSubType :: u32
  majorVersion :: u64
  minorVersion :: u64
  revisionVersion :: u64
  crashInfoMessage :: char_ptr
  crashInfoMessage2 :: char_ptr
  crashInfoBacktrace :: char_ptr
  crashInfoSignature :: char_ptr
  next_img :: "nat option"

text \<open>A descriptor as \<^verbatim>\<open>calloc\<close> or \<^verbatim>\<open>= { 0 }\<close> leaves it: every field zero.\<close>

definition zero_image :: KSBinaryImage where
  "zero_image = \<lparr> header = None, vmAddress = 0, size_img = 0, name = None, uuid = None,
     slide = 0, unloaded = False, inCrashReport = False, cpuType = 0, cpuSubType = 0,
     majorVersion = 0, minorVersion = 0, revisionVersion = 0,
     crashInfoMessage = NULL, crashInfoMessage2 = NULL, crashInfoBacktrace = NULL,
     crashInfoSignature = NULL, next_img = None \<rparr>"

text \<open>
  \<^verbatim>\<open>struct dyld_all_image_infos\<close>, as far as the code reads it; \<open>infoArray0\<close> is the first
  element of \<^verbatim>\<open>infoArray\<close> (\<open>None\<close> when \<^verbatim>\<open>infoArray\<close> is \<^verbatim>\<open>NULL\<close>), with its
  \<^verbatim>\<open>imageLoadAddress\<close> and \<^verbatim>\<open>imageFilePath\<close>.
\<close>

record dyld_all_image_infos =
  dyldImageLoadAddress :: header_ptr
  dyldPath :: "string option"
  infoArray0 :: "(header_ptr \<times> string option) option"

text \<open>
  What the platform answers: \<^verbatim>\<open>dladdr\<close>'s \<^verbatim>\<open>dli_fname\<close> for an address, the address of
  \<^verbatim>\<open>__dso_handle\<close>, whether the build is for the simulator, the region
  \<^verbatim>\<open>task_info (TASK_DYLD_INFO)\<close> returns (\<open>None\<close> when the call fails or the address is
  zero), the images dyld reports, with their slides, when a callback for added images
  is registered, and whether \<^verbatim>\<open>calloc\<close> succeeds when a given number of descriptors is
  allocated.
\<close>

record platform =
  dladdr :: "addr \<Rightarrow> string option"
  dso_handle :: addr
  TARGET_OS_SIMULATOR :: bool
  task_info :: "dyld_all_image_infos option"
  dyld_images :: "(header_ptr \<times> addr) list"
  calloc_ok :: "nat \<Rightarrow> bool"

subsection \<open>The descriptor parser\<close>

definition ksdl_first_cmd_after_header :: "header_ptr \<Rightarrow> addr" where
  "ksdl_first_cmd_after_header hdr =
     (case hdr of
        None \<Rightarrow> 0
      | Some (a, h) \<Rightarrow>
          if magic h = MH_MAGIC \<or> magic h = MH_CIGAM then a + sizeof_mach_header
          else if magic h = MH_MAGIC_64 \<or> magic h = MH_CIGAM_64 then a + sizeof_mach_header_64
          else 0)"

definition get_path ::
  "platform \<Rightarrow> dyld_all_image_infos option \<Rightarrow> header_ptr \<Rightarrow> string option" where
  "get_path env infos hdr =
     (case dladdr env (ptr_addr hdr) of
        Some fname \<Rightarrow> Some fname
      | None \<Rightarrow>
          (case infos of
             None \<Rightarrow> None
           | Some ai \<Rightarrow>
               if ptr_addr hdr = ptr_addr (dyldImageLoadAddress ai) then dyldPath ai
               else if TARGET_OS_SIMULATOR env then
                 (case infoArray0 ai of
                    None \<Rightarrow> None
                  | Some (h0, path0) \<Rightarrow>
                      if ptr_addr hdr = ptr_addr h0 then path0 else None)
               else None))"

text \<open>
  The locals of the command loop of \<^verbatim>\<open>ksdl_getBinaryImageForHeader\<close>:
  \<^verbatim>\<open>imageSize\<close>, \<^verbatim>\<open>imageVmAddr\<close>, \<^verbatim>\<open>version\<close>, \<^verbatim>\<open>uuid\<close>.
\<close>

record cmd_locals =
  imageSize :: u64
  imageVmAddr :: u64
  version_l :: u64
  uuid_l :: "8 word list option"

definition init_locals :: cmd_locals where
  "init_locals = \<lparr> imageSize = 0, imageVmAddr = 0, version_l = 0, uuid_l = None \<rparr>"

text \<open>One iteration of the loop: the \<^verbatim>\<open>switch\<close> on the command.\<close>

fun scan_cmd :: "load_command \<Rightarrow> cmd_locals \<Rightarrow> cmd_locals" where
  "scan_cmd (LC_SEGMENT segname vmaddr vmsize) l =
     (if segname = SEG_TEXT then l\<lparr>imageSize := ucast vmsize, imageVmAddr := ucast vmaddr\<rparr>
      else l)"
| "scan_cmd (LC_SEGMENT_64 segname vmaddr vmsize) l =
     (if segname = SEG_TEXT then l\<lparr>imageSize := vmsize, imageVmAddr := vmaddr\<rparr> else l)"
| "scan_cmd (LC_UUID u) l = l\<lparr>uuid_l := Some u\<rparr>"
| "scan_cmd (LC_ID_DYLIB current_version) l = l\<lparr>version_l := ucast current_version\<rparr>"
| "scan_cmd (LC_OTHER c) l = l"

fun scan_cmds :: "load_command list \<Rightarrow> cmd_locals \<Rightarrow> cmd_locals" where
  "scan_cmds [] l = l"
| "scan_cmds (c # cs) l = scan_cmds cs (scan_cmd c l)"

text \<open>
  The loop runs over the first \<^verbatim>\<open>header->ncmds\<close> commands; the model has no command
  beyond the end of the table.
\<close>

definition header_cmds :: "mach_header \<Rightarrow> load_command list" where
  "header_cmds h = take (unat (ncmds h)) (cmds h)"

text \<open>
  Modelled from the spec: \<^verbatim>\<open>ksmem_maxReadableBytes\<close> and \<^verbatim>\<open>ksmem_isMemoryReadable\<close> of
  \<^verbatim>\<open>KSMemory.h\<close>, the bounded validation helper, which answers how many bytes starting
  at an address are safely readable, up to a bound, and whether a span is readable.
\<close>

definition ksmem_maxReadableBytes :: "8 word list \<Rightarrow> nat \<Rightarrow> nat" where
  "ksmem_maxReadableBytes readable n = min (length readable) n"

definition ksmem_isMemoryReadable :: "nat \<Rightarrow> nat \<Rightarrow> bool" where
  "ksmem_isMemoryReadable readable n = (n \<le> readable)"

text \<open>The loop of \<^verbatim>\<open>isValidCrashInfoMessage\<close>, from index \<open>i\<close>.\<close>

function find_nul :: "8 word list \<Rightarrow> nat \<Rightarrow> nat \<Rightarrow> bool" where
  "find_nul str i maxReadableBytes =
     (if i < maxReadableBytes
      then (if str ! i = 0 then True else find_nul str (i + 1) maxReadableBytes)
      else False)"
  by pat_completeness auto
termination
  by (relation "measure (\<lambda>(str, i, n). n - i)") auto

declare find_nul.simps [simp del]

definition isValidCrashInfoMessage :: "char_ptr \<Rightarrow> bool" where
  "isValidCrashInfoMessage str =
     (case str of
        NULL \<Rightarrow> False
      | Ptr readable \<Rightarrow>
          (let maxReadableBytes =
                 ksmem_maxReadableBytes readable (KSDL_MaxCrashInfoStringLength + 1)
           in if maxReadableBytes = 0 then False
              else find_nul readable 0 maxReadableBytes))"

text \<open>
  \<^verbatim>\<open>offsetof (crash_info_t, reserved)\<close> under \<^verbatim>\<open>#pragma pack(8)\<close> with 8-byte pointers:
  the version, padded to 8 bytes, and four pointers.
\<close>

definition minimalSize :: nat where
  "minimalSize = 40"

definition getsectiondata :: "header_ptr \<Rightarrow> crash_section option" where
  "getsectiondata hdr = (case hdr of None \<Rightarrow> None | Some (a, h) \<Rightarrow> crash_info_sect h)"

definition getCrashInfo :: "KSBinaryImage \<Rightarrow> KSBinaryImage" where
  "getCrashInfo buffer =
     (case getsectiondata (header buffer) of
        None \<Rightarrow> buffer
      | Some sect \<Rightarrow>
          if unat (sect_size sect) < minimalSize then buffer
          else if \<not> ksmem_isMemoryReadable (sect_readable sect) minimalSize then buffer
          else
            (let crashInfo = sect_info sect in
             if version crashInfo \<noteq> 4 \<and> version crashInfo \<noteq> 5 then buffer
             else if message crashInfo = NULL \<and> message2 crashInfo = NULL then buffer
             else
               (let b1 = (if isValidCrashInfoMessage (message crashInfo)
                          then buffer\<lparr>crashInfoMessage := message crashInfo\<rparr> else buffer);
                    b2 = (if isValidCrashInfoMessage (message2 crashInfo)
                          then b1\<lparr>crashInfoMessage2 := message2 crashInfo\<rparr> else b1);
                    b3 = (if isValidCrashInfoMessage (backtrace crashInfo)
                          then b2\<lparr>crashInfoBacktrace := backtrace crashInfo\<rparr> else b2);
                    b4 = (if isValidCrashInfoMessage (signature crashInfo)
                          then b3\<lparr>crashInfoSignature := signature crashInfo\<rparr> else b3)
                in b4)))"

text \<open>
  The sanity check of the parser, which only writes to the log:
  \<^verbatim>\<open>(uintptr_t)imageVmAddr + (uintptr_t)slide != (uintptr_t)header\<close>.
\<close>

definition slide_mismatch :: "header_ptr \<Rightarrow> addr \<Rightarrow> cmd_locals \<Rightarrow> bool" where
  "slide_mismatch hdr sl l = (imageVmAddr l + sl \<noteq> ptr_addr hdr)"

text \<open>
  The assignments to \<^verbatim>\<open>buffer\<close> up to the call of \<^verbatim>\<open>getCrashInfo\<close>.
\<close>

definition fill_buffer ::
  "header_ptr \<Rightarrow> mach_header \<Rightarrow> addr \<Rightarrow> string \<Rightarrow> cmd_locals \<Rightarrow> KSBinaryImage \<Rightarrow> KSBinaryImage"
  where
  "fill_buffer hdr h sl imageName l buffer =
     buffer\<lparr> header := hdr,
             vmAddress := imageVmAddr l,
             size_img := imageSize l,
             name := Some imageName,
             uuid := uuid_l l,
             slide := sl,
             unloaded := False,
             cpuType := cputype h,
             cpuSubType := cpusubtype h,
             majorVersion := drop_bit 16 (version_l l),
             minorVersion := drop_bit 8 (version_l l) AND 0xff,
             revisionVersion := version_l l AND 0xff \<rparr>"

text \<open>
  \<^verbatim>\<open>ksdl_getBinaryImageForHeader\<close>: \<open>None\<close> is the return value \<^verbatim>\<open>false\<close>, which leaves
  \<^verbatim>\<open>buffer\<close> as it was; \<open>Some\<close> is \<^verbatim>\<open>true\<close> with the buffer as written. A \<^verbatim>\<open>NULL\<close> header
  never gets past the first check.
\<close>

definition ksdl_getBinaryImageForHeader ::
  "platform \<Rightarrow> dyld_all_image_infos option \<Rightarrow> header_ptr \<Rightarrow> addr \<Rightarrow> KSBinaryImage
     \<Rightarrow> KSBinaryImage option" where
  "ksdl_getBinaryImageForHeader env infos hdr sl buffer =
     (let cmdPtr = ksdl_first_cmd_after_header hdr in
      if cmdPtr = 0 then None
      else
        (case get_path env infos hdr of
           None \<Rightarrow> None
         | Some imageName \<Rightarrow>
             (case hdr of
                None \<Rightarrow> None
              | Some (a, h) \<Rightarrow>
                  (let l = scan_cmds (header_cmds h) init_locals;
                       b = fill_buffer hdr h sl imageName l buffer
                   in Some ((getCrashInfo b)\<lparr>next_img := None\<rparr>)))))"

subsection \<open>The registry\<close>

text \<open>
  Descriptors live in a memory indexed by address. Address 0 holds \<^verbatim>\<open>g_head_dummy\<close>;
  \<^verbatim>\<open>calloc\<close> hands out the addresses \<open>1, 2, \<dots>\<close> in turn, and \<open>allocated\<close> is the last one
  handed out. A descriptor pointer is \<open>None\<close> for \<^verbatim>\<open>NULL\<close> or \<open>Some\<close> address.
  \<open>registrations\<close> counts the calls of \<^verbatim>\<open>register_for_changes\<close>, each of which hands the
  two callbacks to dyld.
\<close>

type_synonym image_mem = "nat \<Rightarrow> KSBinaryImage"

record registry =
  images :: image_mem
  allocated :: nat
  g_images_tail :: nat
  g_self_image :: "nat option"
  g_all_image_infos :: "dyld_all_image_infos option"
  is_image_list_initialized :: bool
  registrations :: nat

definition init_registry :: registry where
  "init_registry = \<lparr> images = (\<lambda>p. zero_image), allocated = 0, g_images_tail = 0,
     g_self_image = None, g_all_image_infos = None, is_image_list_initialized = False,
     registrations = 0 \<rparr>"

definition ksdl_get_images :: "registry \<Rightarrow> nat option" where
  "ksdl_get_images s = next_img (images s 0)"

text \<open>The two atomic operations of the insert path.\<close>

definition atomic_exchange_tail :: "nat \<Rightarrow> registry \<Rightarrow> nat \<times> registry" where
  "atomic_exchange_tail newImage s = (g_images_tail s, s\<lparr>g_images_tail := newImage\<rparr>)"

definition atomic_store_next :: "nat \<Rightarrow> nat option \<Rightarrow> registry \<Rightarrow> registry" where
  "atomic_store_next p v s = s\<lparr>images := (images s)(p := (images s p)\<lparr>next_img := v\<rparr>)\<rparr>"

text \<open>
  \<^verbatim>\<open>add_image\<close>. When the parser fails the fresh descriptor is freed again, which leaves
  the memory as it was.
\<close>

definition add_image :: "platform \<Rightarrow> header_ptr \<Rightarrow> addr \<Rightarrow> registry \<Rightarrow> registry" where
  "add_image env hdr sl s =
     (if \<not> calloc_ok env (allocated s) then s
      else
        (case ksdl_getBinaryImageForHeader env (g_all_image_infos s) hdr sl zero_image of
           None \<Rightarrow> s
         | Some filled \<Rightarrow>
             (let newImage = Suc (allocated s);
                  s1 = s\<lparr>images := (images s)(newImage := filled), allocated := newImage\<rparr>;
                  (oldTail, s2) = atomic_exchange_tail newImage s1;
                  s3 = atomic_store_next oldTail (Some newImage) s2
              in if ptr_addr hdr = dso_handle env then s3\<lparr>g_self_image := Some newImage\<rparr>
                 else s3)))"

text \<open>
  The loops of the file all have the shape
  \<^verbatim>\<open>for (img = ksdl_get_images(); img != NULL; img = atomic_load(&img->next))\<close>.
  They follow links for as long as there are any, so each is a partial function:
  \<open>None\<close> means that the loop does not return.
\<close>

partial_function (option) remove_image_loop ::
  "u64 \<Rightarrow> nat option \<Rightarrow> image_mem \<Rightarrow> image_mem option" where
  "remove_image_loop vm img mem =
     (case img of
        None \<Rightarrow> Some mem
      | Some p \<Rightarrow>
          (if vmAddress (mem p) = vm
           then remove_image_loop vm (next_img (mem p)) (mem(p := (mem p)\<lparr>unloaded := True\<rparr>))
           else remove_image_loop vm (next_img (mem p)) mem))"

declare remove_image_loop.simps [code]

definition remove_image :: "platform \<Rightarrow> header_ptr \<Rightarrow> addr \<Rightarrow> registry \<Rightarrow> registry option" where
  "remove_image env hdr sl s =
     (case ksdl_getBinaryImageForHeader env (g_all_image_infos s) hdr sl zero_image of
        None \<Rightarrow> Some s
      | Some existingImage \<Rightarrow>
          map_option (\<lambda>mem. s\<lparr>images := mem\<rparr>)
            (remove_image_loop (vmAddress existingImage) (ksdl_get_images s) (images s)))"

text \<open>
  The traversal itself: the addresses a loop of that shape visits, in order.
\<close>

partial_function (option) traverse_from :: "image_mem \<Rightarrow> nat option \<Rightarrow> nat list option" where
  "traverse_from mem img =
     (case img of
        None \<Rightarrow> Some []
      | Some p \<Rightarrow> Option.bind (traverse_from mem (next_img (mem p))) (\<lambda>rest. Some (p # rest)))"

declare traverse_from.simps [code]

definition traverse :: "registry \<Rightarrow> nat list option" where
  "traverse s = traverse_from (images s) (ksdl_get_images s)"

subsection \<open>Queries\<close>

text \<open>
  \<^verbatim>\<open>strstr\<close> of the C library: the offset of the first occurrence of \<open>needle\<close> in
  \<open>haystack\<close>, \<open>None\<close> for the result \<^verbatim>\<open>NULL\<close>. \<^verbatim>\<open>strcmp (a, b) == 0\<close> is equality.
\<close>

fun strstr :: "string \<Rightarrow> string \<Rightarrow> nat option" where
  "strstr [] needle = (if needle = [] then Some 0 else None)"
| "strstr (c # haystack) needle =
     (if take (length needle) (c # haystack) = needle then Some 0
      else map_option Suc (strstr haystack needle))"

partial_function (option) imageNamed_loop ::
  "image_mem \<Rightarrow> nat option \<Rightarrow> string \<Rightarrow> bool \<Rightarrow> nat option option" where
  "imageNamed_loop mem img imageName exactMatch =
     (case img of
        None \<Rightarrow> Some None
      | Some p \<Rightarrow>
          (case name (mem p) of
             None \<Rightarrow> imageNamed_loop mem (next_img (mem p)) imageName exactMatch
           | Some nm \<Rightarrow>
               if unloaded (mem p)
               then imageNamed_loop mem (next_img (mem p)) imageName exactMatch
               else if exactMatch then
                 (if nm = imageName then Some (Some p)
                  else imageNamed_loop mem (next_img (mem p)) imageName exactMatch)
               else
                 (if strstr nm imageName \<noteq> None then Some (Some p)
                  else imageNamed_loop mem (next_img (mem p)) imageName exactMatch)))"

declare imageNamed_loop.simps [code]

definition ksdl_imageNamed :: "registry \<Rightarrow> string option \<Rightarrow> bool \<Rightarrow> nat option option" where
  "ksdl_imageNamed s imageName exactMatch =
     (case imageName of
        None \<Rightarrow> Some None
      | Some n \<Rightarrow> imageNamed_loop (images s) (ksdl_get_images s) n exactMatch)"

definition contains_address :: "KSBinaryImage \<Rightarrow> addr \<Rightarrow> bool" where
  "contains_address img address =
     (if unloaded img then False
      else
        (let imageStart = ptr_addr (header img)
         in address \<ge> imageStart \<and> address < imageStart + size_img img))"

partial_function (option) image_at_address_loop ::
  "image_mem \<Rightarrow> nat option \<Rightarrow> addr \<Rightarrow> nat option option" where
  "image_at_address_loop mem img address =
     (case img of
        None \<Rightarrow> Some None
      | Some p \<Rightarrow>
          if contains_address (mem p) address then Some (Some p)
          else image_at_address_loop mem (next_img (mem p)) address)"

declare image_at_address_loop.simps [code]

definition ksdl_image_at_address :: "registry \<Rightarrow> addr \<Rightarrow> nat option option" where
  "ksdl_image_at_address s address =
     image_at_address_loop (images s) (ksdl_get_images s) address"

subsection \<open>Bootstrap\<close>

text \<open>
  The loop of \<^verbatim>\<open>compute_slide\<close>, which returns at the first code segment. Its
  \<^verbatim>\<open>LC_SEGMENT\<close> case has no \<^verbatim>\<open>break\<close> and falls into the \<^verbatim>\<open>LC_SEGMENT_64\<close> case, which
  compares the same segment name again (the name has the same offset in both
  structures), so falling through changes nothing.
\<close>

fun compute_slide_loop :: "addr \<Rightarrow> load_command list \<Rightarrow> addr" where
  "compute_slide_loop a [] = 0"
| "compute_slide_loop a (LC_SEGMENT segname vmaddr vmsize # cs) =
     (if segname = SEG_TEXT then a - ucast vmaddr else compute_slide_loop a cs)"
| "compute_slide_loop a (LC_SEGMENT_64 segname vmaddr vmsize # cs) =
     (if segname = SEG_TEXT then a - vmaddr else compute_slide_loop a cs)"
| "compute_slide_loop a (c # cs) = compute_slide_loop a cs"

definition compute_slide :: "header_ptr \<Rightarrow> addr" where
  "compute_slide hdr =
     (if ksdl_first_cmd_after_header hdr = 0 then 0
      else (case hdr of None \<Rightarrow> 0 | Some (a, h) \<Rightarrow> compute_slide_loop a (header_cmds h)))"

definition register_dyld_images :: "platform \<Rightarrow> registry \<Rightarrow> registry" where
  "register_dyld_images env s =
     (case task_info env of
        None \<Rightarrow> s
      | Some ai \<Rightarrow>
          (let s1 = s\<lparr>g_all_image_infos := Some ai\<rparr>;
               dyldImageSlide = compute_slide (dyldImageLoadAddress ai);
               s2 = add_image env (dyldImageLoadAddress ai) dyldImageSlide s1
           in if TARGET_OS_SIMULATOR env then
                (case infoArray0 ai of
                   Some (hdr, Some imageFilePath) \<Rightarrow>
                     if strstr imageFilePath ''/usr/lib/dyld_sim'' \<noteq> None
                     then add_image env hdr (compute_slide hdr) s2
                     else s2
                 | _ \<Rightarrow> s2)
              else s2))"

text \<open>
  \<^verbatim>\<open>register_for_changes\<close>: dyld calls the add function once for each image that is
  already loaded, then on every later load; the remove function on every unload.
\<close>

definition register_for_changes :: "platform \<Rightarrow> registry \<Rightarrow> registry" where
  "register_for_changes env s =
     fold (\<lambda>(hdr, sl). add_image env hdr sl) (dyld_images env)
       (s\<lparr>registrations := Suc (registrations s)\<rparr>)"

text \<open>
  \<^verbatim>\<open>atomic_compare_exchange_strong (&is_image_list_initialized, &expected, true)\<close> with
  \<^verbatim>\<open>expected = false\<close>: whether the exchange took place, and the state after it.
\<close>

definition compare_exchange_initialized :: "registry \<Rightarrow> bool \<times> registry" where
  "compare_exchange_initialized s =
     (if is_image_list_initialized s = False then (True, s\<lparr>is_image_list_initialized := True\<rparr>)
      else (False, s))"

definition ksdl_binary_images_initialize :: "platform \<Rightarrow> registry \<Rightarrow> registry" where
  "ksdl_binary_images_initialize env s =
     (let (won, s1) = compare_exchange_initialized s
      in if \<not> won then s1
         else register_for_changes env (register_dyld_images env s1))"

subsection \<open>Sequences of calls\<close>

text \<open>
  The calls that reach the registry: the two loader callbacks (also reachable through the
  test-support entry points) and the initialisation.
\<close>

datatype call = Add header_ptr addr | Remove header_ptr addr | Initialize

fun do_call :: "platform \<Rightarrow> call \<Rightarrow> registry \<Rightarrow> registry option" where
  "do_call env (Add hdr sl) s = Some (add_image env hdr sl s)"
| "do_call env (Remove hdr sl) s = remove_image env hdr sl s"
| "do_call env Initialize s = Some (ksdl_binary_images_initialize env s)"

fun do_calls :: "platform \<Rightarrow> call list \<Rightarrow> registry \<Rightarrow> registry option" where
  "do_calls env [] s = Some s"
| "do_calls env (c # cs) s = Option.bind (do_call env c s) (do_calls env cs)"

subsection \<open>What the name lookup tests\<close>

text \<open>
  The condition under which an iteration of the loop of \<^verbatim>\<open>ksdl_imageNamed\<close> returns the
  descriptor it is at.
\<close>

definition name_matches :: "KSBinaryImage \<Rightarrow> string \<Rightarrow> bool \<Rightarrow> bool" where
  "name_matches img imageName exactMatch =
     (case name img of
        None \<Rightarrow> False
      | Some nm \<Rightarrow>
          \<not> unloaded img
          \<and> (if exactMatch then nm = imageName else strstr nm imageName \<noteq> None))"

subsection \<open>The shape of the list\<close>

text \<open>
  The links of the first \<open>n\<close> descriptors form one chain from the dummy head: each
  descriptor links to the one allocated after it, and the last link is null.
\<close>

definition chain_mem :: "image_mem \<Rightarrow> nat \<Rightarrow> bool" where
  "chain_mem mem n \<longleftrightarrow>
     (\<forall>p \<le> n. next_img (mem p) = (if p < n then Some (Suc p) else None))"

text \<open>
  The invariant of the registry between calls: the allocated descriptors form that chain,
  the tail pointer is at its last descriptor, and the loader's bookkeeping region is
  unknown until the initialisation has run.
\<close>

definition linked :: "registry \<Rightarrow> bool" where
  "linked s \<longleftrightarrow>
     g_images_tail s = allocated s
     \<and> chain_mem (images s) (allocated s)
     \<and> (is_image_list_initialized s = False \<longrightarrow> g_all_image_infos s = None)"

text \<open>
  How a later state of the registry relates to an earlier one: descriptors are only ever
  added; an existing descriptor changes in its \<open>unloaded\<close> flag and its link only; the flag
  is never cleared and a link that is set is never set again; the loader's bookkeeping
  region is recorded once.
\<close>

definition evolves :: "registry \<Rightarrow> registry \<Rightarrow> bool" where
  "evolves s s' \<longleftrightarrow>
     allocated s \<le> allocated s'
     \<and> (\<forall>p \<le> allocated s.
          images s' p = (images s p)\<lparr>unloaded := unloaded (images s' p),
                                      next_img := next_img (images s' p)\<rparr>)
     \<and> (\<forall>p \<le> allocated s. unloaded (images s p) \<longrightarrow> unloaded (images s' p))
     \<and> (\<forall>p \<le> allocated s. next_img (images s p) \<noteq> None \<longrightarrow>
          next_img (images s' p) = next_img (images s p))
     \<and> (g_all_image_infos s' = g_all_image_infos s \<or> g_all_image_infos s = None)"

subsection \<open>Concurrent insertions and traversals\<close>

text \<open>
  Threads that run \<^verbatim>\<open>add_image\<close> and threads that traverse the list, interleaved at the
  atomic operations on the shared registry; these are sequentially consistent, so an
  execution is a sequence of steps, each taken by one thread. A thread is represented by
  the point it has reached. A writer: called with a header and a slide; \<^verbatim>\<open>calloc\<close> has
  returned a zeroed descriptor; the parser has filled it; the tail has been exchanged (with
  the old tail in hand); the old tail has been linked; returned. A reader is about to load
  the head, or is at a descriptor (or at \<^verbatim>\<open>NULL\<close>, the end of its loop) and has seen a
  sequence of descriptors, each recorded with its address as it was when the reader was at
  it. The writes of the parser go to a descriptor no other thread can reach yet and are one
  step. A descriptor that is freed because the parser failed is not handed out again.
\<close>

datatype thread =
    W_start header_ptr addr
  | W_allocated nat header_ptr addr
  | W_parsed nat header_ptr
  | W_exchanged nat nat header_ptr
  | W_linked nat header_ptr
  | Done
  | R_start
  | R_at "nat option" "(nat \<times> KSBinaryImage) list"

text \<open>
  One step of a thread on the registry. The list that is passed along records the
  descriptors in the order in which they were published by the exchange of the tail; it is
  not part of the program. \<open>None\<close>: the thread has returned.
\<close>

fun thread_step ::
  "platform \<Rightarrow> thread \<Rightarrow> registry \<times> nat list \<Rightarrow> (thread \<times> registry \<times> nat list) option" where
  "thread_step env (W_start hdr sl) (s, pub) =
     (if \<not> calloc_ok env (allocated s) then Some (Done, s, pub)
      else
        (let newImage = Suc (allocated s)
         in Some (W_allocated newImage hdr sl,
                  s\<lparr>images := (images s)(newImage := zero_image), allocated := newImage\<rparr>,
                  pub)))"
| "thread_step env (W_allocated newImage hdr sl) (s, pub) =
     (case ksdl_getBinaryImageForHeader env (g_all_image_infos s) hdr sl (images s newImage) of
        None \<Rightarrow> Some (Done, s, pub)
      | Some filled \<Rightarrow>
          Some (W_parsed newImage hdr, s\<lparr>images := (images s)(newImage := filled)\<rparr>, pub))"
| "thread_step env (W_parsed newImage hdr) (s, pub) =
     (let (oldTail, s') = atomic_exchange_tail newImage s
      in Some (W_exchanged oldTail newImage hdr, s', pub @ [newImage]))"
| "thread_step env (W_exchanged oldTail newImage hdr) (s, pub) =
     Some (W_linked newImage hdr, atomic_store_next oldTail (Some newImage) s, pub)"
| "thread_step env (W_linked newImage hdr) (s, pub) =
     Some (Done,
           if ptr_addr hdr = dso_handle env then s\<lparr>g_self_image := Some newImage\<rparr> else s,
           pub)"
| "thread_step env Done (s, pub) = None"
| "thread_step env R_start (s, pub) = Some (R_at (ksdl_get_images s) [], s, pub)"
| "thread_step env (R_at None seen) (s, pub) = None"
| "thread_step env (R_at (Some img) seen) (s, pub) =
     Some (R_at (next_img (images s img)) (seen @ [(img, images s img)]), s, pub)"

text \<open>
  A configuration: the registry, the threads, the publication order. A schedule names the
  thread that takes each step; naming a thread that has returned, or no thread, changes
  nothing.
\<close>

type_synonym config = "registry \<times> thread list \<times> nat list"

fun sched_step :: "platform \<Rightarrow> nat \<Rightarrow> config \<Rightarrow> config" where
  "sched_step env i (s, ts, pub) =
     (if i < length ts then
        (case thread_step env (ts ! i) (s, pub) of
           None \<Rightarrow> (s, ts, pub)
         | Some (t', s', pub') \<Rightarrow> (s', ts[i := t'], pub'))
      else (s, ts, pub))"

definition run_schedule :: "platform \<Rightarrow> nat list \<Rightarrow> config \<Rightarrow> config" where
  "run_schedule env sched c = fold (sched_step env) sched c"

text \<open>The registry holds no descriptor; every thread is at its beginning.\<close>

definition empty_registry :: "registry \<Rightarrow> bool" where
  "empty_registry s \<longleftrightarrow>
     allocated s = 0 \<and> g_images_tail s = 0 \<and> next_img (images s 0) = None"

fun at_start :: "thread \<Rightarrow> bool" where
  "at_start (W_start hdr sl) = True"
| "at_start R_start = True"
| "at_start t = False"

text \<open>
  A descriptor is fully initialised: it is what the parser produces for its header and
  slide from a zeroed descriptor, in every field but the link.
\<close>

definition fully_initialized ::
  "platform \<Rightarrow> dyld_all_image_infos option \<Rightarrow> KSBinaryImage \<Rightarrow> bool" where
  "fully_initialized env infos img =
     (case ksdl_getBinaryImageForHeader env infos (header img) (slide img) zero_image of
        None \<Rightarrow> False
      | Some d \<Rightarrow> img = d\<lparr>next_img := next_img img\<rparr>)"

text \<open>
  The steps a thread can still take, at most, when no more than \<open>n\<close> descriptors are ever
  published; and the sum over the threads.
\<close>

fun steps_left :: "nat \<Rightarrow> thread \<Rightarrow> nat" where
  "steps_left n (W_start hdr sl) = 5"
| "steps_left n (W_allocated p hdr sl) = 4"
| "steps_left n (W_parsed p hdr) = 3"
| "steps_left n (W_exchanged a p hdr) = 2"
| "steps_left n (W_linked p hdr) = 1"
| "steps_left n Done = 0"
| "steps_left n R_start = n + 2"
| "steps_left n (R_at None seen) = 0"
| "steps_left n (R_at (Some img) seen) = n + 1 - length seen"

definition total_steps_left :: "config \<Rightarrow> nat" where
  "total_steps_left c =
     (case c of (s, ts, pub) \<Rightarrow> sum_list (map (steps_left (length ts)) ts))"

text \<open>The descriptor a writer holds that is not published yet.\<close>

fun owned :: "thread \<Rightarrow> nat option" where
  "owned (W_allocated p hdr sl) = Some p"
| "owned (W_parsed p hdr) = Some p"
| "owned t = None"

fun unpublished :: "thread \<Rightarrow> nat" where
  "unpublished (W_start hdr sl) = 1"
| "unpublished (W_allocated p hdr sl) = 1"
| "unpublished (W_parsed p hdr) = 1"
| "unpublished t = 0"

text \<open>
  What holds of a thread in a configuration, by the point it has reached.
\<close>

fun thread_ok ::
  "platform \<Rightarrow> dyld_all_image_infos option \<Rightarrow> registry \<Rightarrow> nat list \<Rightarrow> thread \<Rightarrow> bool" where
  "thread_ok env infos s pub (W_allocated p hdr sl) =
     (0 < p \<and> p \<le> allocated s \<and> p \<notin> set pub \<and> images s p = zero_image)"
| "thread_ok env infos s pub (W_parsed p hdr) =
     (0 < p \<and> p \<le> allocated s \<and> p \<notin> set pub
      \<and> fully_initialized env infos (images s p) \<and> next_img (images s p) = None)"
| "thread_ok env infos s pub (W_exchanged a p hdr) =
     (\<exists>k < length pub. a = (0 # pub) ! k \<and> p = pub ! k)"
| "thread_ok env infos s pub (R_at cur seen) =
     (map fst seen = take (length seen) pub
      \<and> length seen \<le> length pub
      \<and> (\<forall>q. cur = Some q \<longrightarrow> length seen < length pub \<and> pub ! length seen = q)
      \<and> (\<forall>x \<in> set seen. fully_initialized env infos (snd x)))"
| "thread_ok env infos s pub t = True"

text \<open>
  The invariant of the configurations: the published descriptors are distinct, allocated
  and fully initialised; the tail pointer is at the last of them; each is linked from its
  predecessor in publication order (the dummy head for the first), or that link is still
  null and the writer that published it is about to set it; the last link is null; the
  descriptors that writers hold unpublished are distinct; no more descriptors are
  published or about to be than there are threads.
\<close>

definition config_ok :: "platform \<Rightarrow> dyld_all_image_infos option \<Rightarrow> config \<Rightarrow> bool" where
  "config_ok env infos c =
     (case c of (s, ts, pub) \<Rightarrow>
        g_all_image_infos s = infos
        \<and> distinct pub \<and> 0 \<notin> set pub \<and> (\<forall>p \<in> set pub. p \<le> allocated s)
        \<and> g_images_tail s = last (0 # pub)
        \<and> next_img (images s (last (0 # pub))) = None
        \<and> (\<forall>k < length pub.
              next_img (images s ((0 # pub) ! k)) = Some (pub ! k)
              \<or> (next_img (images s ((0 # pub) ! k)) = None
                  \<and> (\<exists>hdr. W_exchanged ((0 # pub) ! k) (pub ! k) hdr \<in> set ts)))
        \<and> (\<forall>p \<in> set pub. fully_initialized env infos (images s p))
        \<and> (\<forall>i < length ts. thread_ok env infos s pub (ts ! i))
        \<and> (\<forall>i < length ts. \<forall>j < length ts. i \<noteq> j \<longrightarrow> owned (ts ! i) \<noteq> None \<longrightarrow>
              owned (ts ! i) \<noteq> owned (ts ! j))
        \<and> length pub + sum_list (map unpublished ts) \<le> length ts)"

subsection \<open>Well-formed inputs\<close>

text \<open>
  The header an image pointer addresses lies inside the address space: the address one
  past the header does not wrap around to zero.
\<close>

definition header_in_address_space :: "header_ptr \<Rightarrow> bool" where
  "header_in_address_space hdr =
     (case hdr of None \<Rightarrow> True | Some (a, h) \<Rightarrow> unat a + 32 < 2 ^ 64)"

subsection \<open>Example inputs\<close>

text \<open>
  A small 64-bit dynamic library, mapped at \<open>0x100001000\<close> with slide \<open>0x100000000\<close>,
  whose identity command declares version 1.2.3.
\<close>

definition ex_cmds :: "load_command list" where
  "ex_cmds = [LC_SEGMENT_64 ''__PAGEZERO'' 0 0x1000,
              LC_SEGMENT_64 ''__TEXT'' 0x1000 0x4000,
              LC_UUID [1, 2, 3, 4, 5, 6, 7, 8, 9, 10, 11, 12, 13, 14, 15, 16],
              LC_ID_DYLIB 0x00010203,
              LC_OTHER 0x26]"

definition ex_header :: mach_header where
  "ex_header = \<lparr> magic = MH_MAGIC_64, cputype = 0x0100000c, cpusubtype = 0, filetype = 6,
     ncmds = 5, cmds = ex_cmds, crash_info_sect = None \<rparr>"

definition ex_hdr :: header_ptr where
  "ex_hdr = Some (0x100001000, ex_header)"

definition ex_slide :: addr where
  "ex_slide = 0x100000000"

text \<open>A second image, an executable without an identity command, at \<open>0x200000000\<close>.\<close>

definition ex_header2 :: mach_header where
  "ex_header2 = \<lparr> magic = MH_MAGIC_64, cputype = 0x0100000c, cpusubtype = 0, filetype = 2,
     ncmds = 1, cmds = [LC_SEGMENT_64 ''__TEXT'' 0x200000000 0x8000],
     crash_info_sect = None \<rparr>"

definition ex_hdr2 :: header_ptr where
  "ex_hdr2 = Some (0x200000000, ex_header2)"

text \<open>An image at \<open>0x300000000\<close> whose magic is not a Mach-O magic.\<close>

definition ex_hdr_bad :: header_ptr where
  "ex_hdr_bad = Some (0x300000000, ex_header\<lparr>magic := 0x7f454c46\<rparr>)"

text \<open>An image at \<open>0x400000000\<close>, an address for which no name is known.\<close>

definition ex_hdr_nameless :: header_ptr where
  "ex_hdr_nameless = Some (0x400000000, ex_header)"

text \<open>
  The dynamic loader itself at \<open>0x500000000\<close>, which \<^verbatim>\<open>dladdr\<close> has no name for.
\<close>

definition ex_hdr_dyld :: header_ptr where
  "ex_hdr_dyld =
     Some (0x500000000,
           \<lparr> magic = MH_MAGIC_64, cputype = 0x0100000c, cpusubtype = 0, filetype = 7,
             ncmds = 1, cmds = [LC_SEGMENT_64 ''__TEXT'' 0 0x1000], crash_info_sect = None \<rparr>)"

definition ex_env :: platform where
  "ex_env = \<lparr> dladdr = (\<lambda>a. if a = 0x100001000 then Some ''/usr/lib/libexample.dylib''
                            else if a = 0x200000000 then Some ''/Applications/Example''
                            else if a = 0x300000000 then Some ''/usr/lib/libelf.so''
                            else None),
     dso_handle = 0x100001000, TARGET_OS_SIMULATOR = False,
     task_info = Some \<lparr> dyldImageLoadAddress = ex_hdr_dyld, dyldPath = Some ''/usr/lib/dyld'',
                        infoArray0 = None \<rparr>,
     dyld_images = [(ex_hdr2, 0), (ex_hdr, ex_slide)], calloc_ok = (\<lambda>n. True) \<rparr>"

text \<open>
  A crash-info section of version 5: a valid first message \<^verbatim>\<open>"hi"\<close>, a second message
  in unmapped memory, no backtrace, and a signature that is not terminated.
\<close>

definition ex_crash_info :: crash_info_t where
  "ex_crash_info = \<lparr> version = 5, message = Ptr [0x68, 0x69, 0], signature = Ptr [0x41, 0x42],
     backtrace = NULL, message2 = Ptr [] \<rparr>"

definition ex_section :: crash_section where
  "ex_section = \<lparr> sect_size = 64, sect_readable = 64, sect_info = ex_crash_info \<rparr>"

definition ex_hdr_crash :: header_ptr where
  "ex_hdr_crash = Some (0x100001000, ex_header\<lparr>crash_info_sect := Some ex_section\<rparr>)"

text \<open>The same section with an unsupported version.\<close>

definition ex_hdr_crash_v3 :: header_ptr where
  "ex_hdr_crash_v3 =
     Some (0x100001000,
           ex_header\<lparr>crash_info_sect :=
                        Some (ex_section\<lparr>sect_info := ex_crash_info\<lparr>version := 3\<rparr>\<rparr>)\<rparr>)"

text \<open>
  The registry after the executable and then the library have been added, and after the
  library has been removed again.
\<close>

definition ex_calls :: "call list" where
  "ex_calls = [Add ex_hdr2 0, Add ex_hdr ex_slide]"

definition ex_state :: registry where
  "ex_state = add_image ex_env ex_hdr ex_slide (add_image ex_env ex_hdr2 0 init_registry)"

definition ex_removed :: registry where
  "ex_removed = the (remove_image ex_env ex_hdr ex_slide ex_state)"

text \<open>
  A library at \<open>0x600000000\<close> that has a name and no \<^verbatim>\<open>__TEXT\<close> segment, the platform that
  knows its name, and the registry after it has been added.
\<close>

definition ex_hdr_notext :: header_ptr where
  "ex_hdr_notext =
     Some (0x600000000,
           \<lparr> magic = MH_MAGIC_64, cputype = 0x0100000c, cpusubtype = 0, filetype = 6,
             ncmds = 2,
             cmds = [LC_SEGMENT_64 ''__DATA'' 0x600000000 0x4000, LC_ID_DYLIB 0x00010000],
             crash_info_sect = None \<rparr>)"

definition ex_env_notext :: platform where
  "ex_env_notext =
     ex_env\<lparr>dladdr := (\<lambda>a. if a = 0x600000000 then Some ''/usr/lib/libdata.dylib''
                             else None)\<rparr>"

definition ex_state_notext :: registry where
  "ex_state_notext = add_image ex_env_notext ex_hdr_notext 0 init_registry"

text \<open>Three insertions, the last two of the same header.\<close>

definition ex_adds :: "(header_ptr \<times> addr) list" where
  "ex_adds = [(ex_hdr2, 0), (ex_hdr, ex_slide), (ex_hdr, ex_slide)]"

text \<open>
  Two writers and two readers. In the schedule the second writer exchanges the tail after
  the first and links its descriptor before the first writer has linked its own; the first
  reader runs in between, the second reader after both writers have returned.
\<close>

definition ex_threads :: "thread list" where
  "ex_threads = [W_start ex_hdr2 0, W_start ex_hdr ex_slide, R_start, R_start]"

definition ex_schedule :: "nat list" where
  "ex_schedule = [0, 1, 0, 1, 0, 1, 1, 2, 2, 1, 0, 0, 0, 2, 3, 3, 3, 3]"

fun seen_by :: "thread \<Rightarrow> nat list" where
  "seen_by (R_at cur seen) = map fst seen"
| "seen_by t = []"

section \<open>The parser: properties\<close>

lemma scan_cmds_append: "scan_cmds (xs @ ys) l = scan_cmds ys (scan_cmds xs l)"
  by (induction xs arbitrary: l) simp_all

lemma scan_cmd_version_other:
  "(\<forall>v. c \<noteq> LC_ID_DYLIB v) \<Longrightarrow> version_l (scan_cmd c l) = version_l l"
  by (cases c) simp_all

lemma scan_cmds_version_other:
  "(\<forall>c \<in> set cs. \<forall>v. c \<noteq> LC_ID_DYLIB v) \<Longrightarrow> version_l (scan_cmds cs l) = version_l l"
  by (induction cs arbitrary: l) (simp_all add: scan_cmd_version_other)

lemma scan_cmds_version_last:
  assumes "\<forall>c \<in> set post. \<forall>v. c \<noteq> LC_ID_DYLIB v"
  shows "version_l (scan_cmds (pre @ LC_ID_DYLIB cv # post) l) = ucast cv"
  using assms by (simp add: scan_cmds_append scan_cmds_version_other)

lemma getCrashInfo_frame:
  "getCrashInfo b = b\<lparr> crashInfoMessage := crashInfoMessage (getCrashInfo b),
                        crashInfoMessage2 := crashInfoMessage2 (getCrashInfo b),
                        crashInfoBacktrace := crashInfoBacktrace (getCrashInfo b),
                        crashInfoSignature := crashInfoSignature (getCrashInfo b) \<rparr>"
  by (simp add: getCrashInfo_def Let_def split: option.splits)

lemma parse_Some:
  assumes "ksdl_first_cmd_after_header (Some (a, h)) \<noteq> 0"
    and "get_path env infos (Some (a, h)) = Some nm"
  shows "ksdl_getBinaryImageForHeader env infos (Some (a, h)) sl buf =
           Some ((getCrashInfo (fill_buffer (Some (a, h)) h sl nm
                    (scan_cmds (header_cmds h) init_locals) buf))\<lparr>next_img := None\<rparr>)"
  using assms by (simp add: ksdl_getBinaryImageForHeader_def Let_def)

lemma parse_None_iff:
  "ksdl_getBinaryImageForHeader env infos hdr sl buf = None \<longleftrightarrow>
     ksdl_first_cmd_after_header hdr = 0 \<or> get_path env infos hdr = None"
  by (auto simp: ksdl_getBinaryImageForHeader_def Let_def ksdl_first_cmd_after_header_def
           split: option.splits)

lemma parse_SomeD:
  assumes "ksdl_getBinaryImageForHeader env infos hdr sl buf = Some d"
  obtains a h nm where "hdr = Some (a, h)" "get_path env infos hdr = Some nm"
    "ksdl_first_cmd_after_header hdr \<noteq> 0"
    "d = (getCrashInfo (fill_buffer hdr h sl nm
                    (scan_cmds (header_cmds h) init_locals) buf))\<lparr>next_img := None\<rparr>"
  using assms
  by (auto simp: ksdl_getBinaryImageForHeader_def Let_def split: option.splits if_splits)

lemma major_bits:
  fixes cv :: u32
  shows "bit (drop_bit 16 (ucast cv :: u64)) n \<longleftrightarrow> n < 16 \<and> bit cv (n + 16)"
  by (auto simp: bit_simps add.commute dest: bit_imp_le_length)

lemma ff_mask: "(0xff :: u64) = mask 8"
  by (simp add: mask_eq_exp_minus_1)

lemma minor_bits:
  fixes cv :: u32
  shows "bit (drop_bit 8 (ucast cv :: u64) AND 0xff) n \<longleftrightarrow> n < 8 \<and> bit cv (n + 8)"
  unfolding ff_mask by (auto simp: bit_simps add.commute dest: bit_imp_le_length)

lemma revision_bits:
  fixes cv :: u32
  shows "bit ((ucast cv :: u64) AND 0xff) n \<longleftrightarrow> n < 8 \<and> bit cv n"
  unfolding ff_mask by (auto simp: bit_simps dest: bit_imp_le_length)


lemma unat_ucast_32_64: "unat (ucast (cv :: u32) :: u64) = unat cv"
proof -
  have "unat cv < 2 ^ 32" using unsigned_less [of cv] by simp
  then have "unat cv < 2 ^ 64" by simp
  then show ?thesis by (simp add: unsigned_ucast_eq take_bit_nat_eq_self)
qed

lemma unat_drop_bit_ucast:
  "unat (drop_bit k (ucast (cv :: u32) :: u64)) = unat cv div 2 ^ k"
proof -
  have "unat (drop_bit k (ucast cv :: u64)) = drop_bit k (unat (ucast cv :: u64))"
    by (rule unat_drop_bit_eq)
  also have "\<dots> = drop_bit k (unat cv)"
    by (simp only: unat_ucast_32_64)
  also have "\<dots> = unat cv div 2 ^ k"
    by (rule drop_bit_eq_div)
  finally show ?thesis .
qed

lemma unat_and_ff: "unat ((w :: u64) AND 0xff) = unat w mod 2 ^ 8"
proof -
  have "w AND 0xff = take_bit 8 w"
    unfolding ff_mask by (simp only: take_bit_eq_mask)
  then have "unat (w AND 0xff) = take_bit 8 (unat w)"
    by (simp only: unsigned_take_bit_eq)
  also have "\<dots> = unat w mod 2 ^ 8"
    by (rule take_bit_eq_mod)
  finally show ?thesis .
qed

lemma major_unat:
  fixes cv :: u32
  shows "unat (drop_bit 16 (ucast cv :: u64)) = unat cv div 2 ^ 16"
  by (rule unat_drop_bit_ucast)

lemma minor_unat:
  fixes cv :: u32
  shows "unat (drop_bit 8 (ucast cv :: u64) AND 0xff) = unat cv div 2 ^ 8 mod 2 ^ 8"
  by (simp only: unat_and_ff unat_drop_bit_ucast)

lemma revision_unat:
  fixes cv :: u32
  shows "unat ((ucast cv :: u64) AND 0xff) = unat cv mod 2 ^ 8"
  by (simp only: unat_and_ff unat_ucast_32_64)


lemma getCrashInfo_keeps [simp]:
  "header (getCrashInfo b) = header b"
  "vmAddress (getCrashInfo b) = vmAddress b"
  "size_img (getCrashInfo b) = size_img b"
  "name (getCrashInfo b) = name b"
  "uuid (getCrashInfo b) = uuid b"
  "slide (getCrashInfo b) = slide b"
  "unloaded (getCrashInfo b) = unloaded b"
  "inCrashReport (getCrashInfo b) = inCrashReport b"
  "cpuType (getCrashInfo b) = cpuType b"
  "cpuSubType (getCrashInfo b) = cpuSubType b"
  "majorVersion (getCrashInfo b) = majorVersion b"
  "minorVersion (getCrashInfo b) = minorVersion b"
  "revisionVersion (getCrashInfo b) = revisionVersion b"
  "next_img (getCrashInfo b) = next_img b"
  by (simp_all add: getCrashInfo_def Let_def split: option.splits)

lemma first_cmd_nonzero:
  assumes "header_in_address_space (Some (a, h))"
  shows "a + sizeof_mach_header \<noteq> 0" and "a + sizeof_mach_header_64 \<noteq> 0"
proof -
  from assms have bound: "unat a + 32 < 2 ^ 64"
    by (simp add: header_in_address_space_def)
  have "unat (a + 28) = unat a + 28"
    using bound by (simp add: unat_add_lem [THEN iffD1])
  then show "a + sizeof_mach_header \<noteq> 0"
    by (auto simp: sizeof_mach_header_def)
  have "unat (a + 32) = unat a + 32"
    using bound by (simp add: unat_add_lem [THEN iffD1])
  then show "a + sizeof_mach_header_64 \<noteq> 0"
    by (auto simp: sizeof_mach_header_64_def)
qed

lemma first_cmd_zero_iff:
  assumes "header_in_address_space hdr"
  shows "ksdl_first_cmd_after_header hdr = 0 \<longleftrightarrow>
           (hdr = None \<or> (\<exists>a h. hdr = Some (a, h) \<and> magic h \<noteq> MH_MAGIC \<and> magic h \<noteq> MH_CIGAM
               \<and> magic h \<noteq> MH_MAGIC_64 \<and> magic h \<noteq> MH_CIGAM_64))"
proof (cases hdr)
  case None
  then show ?thesis by (simp add: ksdl_first_cmd_after_header_def)
next
  case (Some p)
  obtain a h where p: "p = (a, h)" by (cases p)
  from assms Some p have "header_in_address_space (Some (a, h))" by simp
  note nz = first_cmd_nonzero [OF this]
  show ?thesis
    using nz by (simp add: Some p ksdl_first_cmd_after_header_def)
qed

text \<open>
  Claim C4. For a header pointer that is \<^verbatim>\<open>NULL\<close> or addresses a header lying inside the
  address space, and for every displacement, the parser returns failure exactly when the
  pointer is \<^verbatim>\<open>NULL\<close>, or the magic is none of the four recognised 32/64-bit values, or
  no name can be resolved. In every other case it succeeds and produces a descriptor for
  that header and displacement, whether or not the code segment's address plus the
  displacement equals the header's address: that check has no effect on the result.
\<close>

theorem parser_fails_iff:
  assumes "header_in_address_space hdr"
  shows "(ksdl_getBinaryImageForHeader env infos hdr sl buffer = None \<longleftrightarrow>
            (hdr = None
             \<or> (\<exists>a h. hdr = Some (a, h) \<and> magic h \<noteq> MH_MAGIC \<and> magic h \<noteq> MH_CIGAM
                    \<and> magic h \<noteq> MH_MAGIC_64 \<and> magic h \<noteq> MH_CIGAM_64)
             \<or> get_path env infos hdr = None))
         \<and> (\<forall>d. ksdl_getBinaryImageForHeader env infos hdr sl buffer = Some d \<longrightarrow>
                header d = hdr \<and> slide d = sl \<and> name d = get_path env infos hdr
                \<and> unloaded d = False \<and> next_img d = None)"
proof (intro conjI allI impI)
  show "ksdl_getBinaryImageForHeader env infos hdr sl buffer = None \<longleftrightarrow>
            (hdr = None
             \<or> (\<exists>a h. hdr = Some (a, h) \<and> magic h \<noteq> MH_MAGIC \<and> magic h \<noteq> MH_CIGAM
                    \<and> magic h \<noteq> MH_MAGIC_64 \<and> magic h \<noteq> MH_CIGAM_64)
             \<or> get_path env infos hdr = None)"
    unfolding parse_None_iff first_cmd_zero_iff [OF assms] by (simp only: disj_assoc)
next
  fix d
  assume "ksdl_getBinaryImageForHeader env infos hdr sl buffer = Some d"
  then obtain a h nm where *: "hdr = Some (a, h)" "get_path env infos hdr = Some nm"
    "d = (getCrashInfo (fill_buffer hdr h sl nm
                    (scan_cmds (header_cmds h) init_locals) buffer))\<lparr>next_img := None\<rparr>"
    by (rule parse_SomeD)
  show "header d = hdr" using * by (simp add: fill_buffer_def)
  show "slide d = sl" using * by (simp add: fill_buffer_def)
  show "name d = get_path env infos hdr" using * by (simp add: fill_buffer_def)
  show "unloaded d = False" using * by (simp add: fill_buffer_def)
  show "next_img d = None" using * by simp
qed

lemma ex_path: "get_path ex_env None ex_hdr = Some ''/usr/lib/libexample.dylib''"
  by (simp add: get_path_def ex_env_def ex_hdr_def ptr_addr_def)

lemma ex_first_cmd: "ksdl_first_cmd_after_header ex_hdr = 0x100001020"
  by (simp add: ksdl_first_cmd_after_header_def ex_hdr_def ex_header_def sizeof_mach_header_64_def
        MH_MAGIC_def MH_MAGIC_64_def MH_CIGAM_def MH_CIGAM_64_def)

lemma ex_header_cmds: "header_cmds ex_header = ex_cmds"
  by (simp add: header_cmds_def ex_header_def ex_cmds_def)

lemma ex_scan: "scan_cmds ex_cmds init_locals =
   \<lparr> imageSize = 0x4000, imageVmAddr = 0x1000, version_l = 0x10203,
     uuid_l = Some [1, 2, 3, 4, 5, 6, 7, 8, 9, 10, 11, 12, 13, 14, 15, 16] \<rparr>"
  by (simp add: ex_cmds_def init_locals_def SEG_TEXT_def)

text \<open>
  The example library parsed with displacement 0, which disagrees with its code segment,
  still yields a descriptor; a \<^verbatim>\<open>NULL\<close> header, a foreign magic and an unnamed image fail.
\<close>

theorem parser_fails_iff_witness:
  "header_in_address_space ex_hdr
   \<and> ksdl_getBinaryImageForHeader ex_env None ex_hdr 0 zero_image \<noteq> None
   \<and> slide_mismatch ex_hdr 0 (scan_cmds (header_cmds ex_header) init_locals)
   \<and> ksdl_getBinaryImageForHeader ex_env None None 0 zero_image = None
   \<and> ksdl_getBinaryImageForHeader ex_env None ex_hdr_bad 0 zero_image = None
   \<and> ksdl_getBinaryImageForHeader ex_env None ex_hdr_nameless 0 zero_image = None"
proof -
  have v: "header_in_address_space ex_hdr" "header_in_address_space None"
    "header_in_address_space ex_hdr_bad" "header_in_address_space ex_hdr_nameless"
    by (simp_all add: header_in_address_space_def ex_hdr_def ex_hdr_bad_def ex_hdr_nameless_def)
  have m: "magic ex_header = MH_MAGIC_64" by (simp add: ex_header_def)
  have 1: "ksdl_getBinaryImageForHeader ex_env None ex_hdr 0 zero_image \<noteq> None"
    using parser_fails_iff [OF v(1), of ex_env None 0 zero_image] ex_path m
    by (simp add: ex_hdr_def)
  have 2: "slide_mismatch ex_hdr 0 (scan_cmds (header_cmds ex_header) init_locals)"
    by (simp add: slide_mismatch_def ex_header_cmds ex_scan ex_hdr_def ptr_addr_def)
  have 3: "ksdl_getBinaryImageForHeader ex_env None None 0 zero_image = None"
    using parser_fails_iff [OF v(2), of ex_env None 0 zero_image] by simp
  have 4: "ksdl_getBinaryImageForHeader ex_env None ex_hdr_bad 0 zero_image = None"
    using parser_fails_iff [OF v(3), of ex_env None 0 zero_image]
    by (simp add: ex_hdr_bad_def MH_MAGIC_def MH_MAGIC_64_def MH_CIGAM_def MH_CIGAM_64_def)
  have 5: "ksdl_getBinaryImageForHeader ex_env None ex_hdr_nameless 0 zero_image = None"
    using parser_fails_iff [OF v(4), of ex_env None 0 zero_image]
    by (simp add: ex_hdr_nameless_def get_path_def ex_env_def ptr_addr_def)
  from v(1) 1 2 3 4 5 show ?thesis by blast
qed


lemma find_nul_iff:
  "find_nul str i n \<longleftrightarrow> (\<exists>j. i \<le> j \<and> j < n \<and> str ! j = 0)"
proof (induction str i n rule: find_nul.induct)
  case (1 str i n)
  show ?case
  proof (cases "i < n")
    case False
    then show ?thesis by (subst find_nul.simps) auto
  next
    case True
    show ?thesis
    proof (cases "str ! i = 0")
      case z: True
      with True show ?thesis by (subst find_nul.simps) auto
    next
      case nz: False
      have "find_nul str i n = find_nul str (i + 1) n"
        using True nz by (subst find_nul.simps) simp
      also have "\<dots> \<longleftrightarrow> (\<exists>j. i + 1 \<le> j \<and> j < n \<and> str ! j = 0)"
        using "1.IH" True nz by simp
      also have "\<dots> \<longleftrightarrow> (\<exists>j. i \<le> j \<and> j < n \<and> str ! j = 0)"
      proof
        assume "\<exists>j. i + 1 \<le> j \<and> j < n \<and> str ! j = 0"
        then obtain j where "i + 1 \<le> j" "j < n" "str ! j = 0" by blast
        then have "i \<le> j \<and> j < n \<and> str ! j = 0" by simp
        then show "\<exists>j. i \<le> j \<and> j < n \<and> str ! j = 0" ..
      next
        assume "\<exists>j. i \<le> j \<and> j < n \<and> str ! j = 0"
        then obtain j where j: "i \<le> j" "j < n" "str ! j = 0" by blast
        with nz have "j \<noteq> i" by auto
        with j have "i + 1 \<le> j \<and> j < n \<and> str ! j = 0" by simp
        then show "\<exists>j. i + 1 \<le> j \<and> j < n \<and> str ! j = 0" ..
      qed
      finally show ?thesis .
    qed
  qed
qed

lemma isValidCrashInfoMessage_Ptr:
  "isValidCrashInfoMessage (Ptr readable) \<longleftrightarrow>
     (\<exists>j < min (length readable) (KSDL_MaxCrashInfoStringLength + 1). readable ! j = 0)"
proof (cases "min (length readable) (KSDL_MaxCrashInfoStringLength + 1) = 0")
  case True
  then show ?thesis
    by (simp add: isValidCrashInfoMessage_def ksmem_maxReadableBytes_def)
next
  case False
  then show ?thesis
    by (simp add: isValidCrashInfoMessage_def ksmem_maxReadableBytes_def find_nul_iff)
qed

lemma isValidCrashInfoMessage_NULL [simp]: "\<not> isValidCrashInfoMessage NULL"
  by (simp add: isValidCrashInfoMessage_def)

lemma getCrashInfo_skip:
  assumes "getsectiondata (header b) = None
     \<or> (\<exists>sect. getsectiondata (header b) = Some sect \<and>
           (unat (sect_size sect) < minimalSize
            \<or> \<not> ksmem_isMemoryReadable (sect_readable sect) minimalSize
            \<or> (version (sect_info sect) \<noteq> 4 \<and> version (sect_info sect) \<noteq> 5)
            \<or> (message (sect_info sect) = NULL \<and> message2 (sect_info sect) = NULL)))"
  shows "getCrashInfo b = b"
  using assms by (auto simp: getCrashInfo_def Let_def)

lemma getCrashInfo_read:
  assumes "getsectiondata (header b) = Some sect"
    and "\<not> unat (sect_size sect) < minimalSize"
    and "ksmem_isMemoryReadable (sect_readable sect) minimalSize"
    and "version (sect_info sect) = 4 \<or> version (sect_info sect) = 5"
    and "message (sect_info sect) \<noteq> NULL \<or> message2 (sect_info sect) \<noteq> NULL"
  shows "crashInfoMessage (getCrashInfo b) =
           (if isValidCrashInfoMessage (message (sect_info sect)) then message (sect_info sect)
            else crashInfoMessage b)"
    and "crashInfoMessage2 (getCrashInfo b) =
           (if isValidCrashInfoMessage (message2 (sect_info sect)) then message2 (sect_info sect)
            else crashInfoMessage2 b)"
    and "crashInfoBacktrace (getCrashInfo b) =
           (if isValidCrashInfoMessage (backtrace (sect_info sect)) then backtrace (sect_info sect)
            else crashInfoBacktrace b)"
    and "crashInfoSignature (getCrashInfo b) =
           (if isValidCrashInfoMessage (signature (sect_info sect)) then signature (sect_info sect)
            else crashInfoSignature b)"
  using assms by (auto simp: getCrashInfo_def Let_def)

lemma getCrashInfo_invalid_unset:
  assumes "getsectiondata (header b) = Some sect"
  shows "\<not> isValidCrashInfoMessage (message (sect_info sect)) \<Longrightarrow>
           crashInfoMessage (getCrashInfo b) = crashInfoMessage b"
    and "\<not> isValidCrashInfoMessage (message2 (sect_info sect)) \<Longrightarrow>
           crashInfoMessage2 (getCrashInfo b) = crashInfoMessage2 b"
    and "\<not> isValidCrashInfoMessage (backtrace (sect_info sect)) \<Longrightarrow>
           crashInfoBacktrace (getCrashInfo b) = crashInfoBacktrace b"
    and "\<not> isValidCrashInfoMessage (signature (sect_info sect)) \<Longrightarrow>
           crashInfoSignature (getCrashInfo b) = crashInfoSignature b"
  using assms by (auto simp: getCrashInfo_def Let_def)


lemma first_cmd_sect_irrelevant:
  "ksdl_first_cmd_after_header (Some (a, h\<lparr>crash_info_sect := cs\<rparr>)) =
   ksdl_first_cmd_after_header (Some (a, h))"
  by (simp add: ksdl_first_cmd_after_header_def)

lemma ptr_addr_simps [simp]: "ptr_addr None = 0" "ptr_addr (Some (a, h)) = a"
  by (simp_all add: ptr_addr_def)

lemma get_path_by_address:
  "ptr_addr hdr = ptr_addr hdr' \<Longrightarrow> get_path env infos hdr = get_path env infos hdr'"
  by (simp add: get_path_def split: option.splits)

lemma get_path_sect_irrelevant:
  "get_path env infos (Some (a, h\<lparr>crash_info_sect := cs\<rparr>)) = get_path env infos (Some (a, h))"
  by (rule get_path_by_address) simp

lemma header_cmds_sect_irrelevant:
  "header_cmds (h\<lparr>crash_info_sect := cs\<rparr>) = header_cmds h"
  by (simp add: header_cmds_def)

lemma fill_buffer_sect_irrelevant:
  "fill_buffer hdr (h\<lparr>crash_info_sect := cs\<rparr>) sl nm l b = fill_buffer hdr h sl nm l b"
  by (simp add: fill_buffer_def)

lemma fill_buffer_crash_fields [simp]:
  "crashInfoMessage (fill_buffer hdr h sl nm l b) = crashInfoMessage b"
  "crashInfoMessage2 (fill_buffer hdr h sl nm l b) = crashInfoMessage2 b"
  "crashInfoBacktrace (fill_buffer hdr h sl nm l b) = crashInfoBacktrace b"
  "crashInfoSignature (fill_buffer hdr h sl nm l b) = crashInfoSignature b"
  "header (fill_buffer hdr h sl nm l b) = hdr"
  by (simp_all add: fill_buffer_def)

text \<open>
  Claim C7. For an image whose magic and name are accepted, the parser succeeds whatever
  the crash-info section holds, and the descriptor differs from the one produced for the
  same image without the section in the four diagnostic strings only. If the section's
  version is neither 4 nor 5, or the section is too small or unreadable, or both primary
  messages are null, none of the four strings is written; otherwise each string is written
  exactly when it passes the validator, independently of the other three.
\<close>

theorem crash_info_never_fatal:
  assumes "ksdl_first_cmd_after_header (Some (a, h)) \<noteq> 0"
    and "get_path env infos (Some (a, h)) = Some nm"
  shows "\<exists>d d0.
      ksdl_getBinaryImageForHeader env infos (Some (a, h)) sl buffer = Some d
    \<and> ksdl_getBinaryImageForHeader env infos (Some (a, h\<lparr>crash_info_sect := None\<rparr>)) sl buffer
        = Some d0
    \<and> d = d0\<lparr> header := Some (a, h),
               crashInfoMessage := crashInfoMessage d,
               crashInfoMessage2 := crashInfoMessage2 d,
               crashInfoBacktrace := crashInfoBacktrace d,
               crashInfoSignature := crashInfoSignature d \<rparr>
    \<and> (\<forall>sect. crash_info_sect h = Some sect \<and>
           ((version (sect_info sect) \<noteq> 4 \<and> version (sect_info sect) \<noteq> 5)
            \<or> unat (sect_size sect) < minimalSize
            \<or> \<not> ksmem_isMemoryReadable (sect_readable sect) minimalSize
            \<or> (message (sect_info sect) = NULL \<and> message2 (sect_info sect) = NULL)) \<longrightarrow>
           crashInfoMessage d = crashInfoMessage buffer
           \<and> crashInfoMessage2 d = crashInfoMessage2 buffer
           \<and> crashInfoBacktrace d = crashInfoBacktrace buffer
           \<and> crashInfoSignature d = crashInfoSignature buffer)
    \<and> (\<forall>sect. crash_info_sect h = Some sect \<and>
           (version (sect_info sect) = 4 \<or> version (sect_info sect) = 5)
           \<and> \<not> unat (sect_size sect) < minimalSize
           \<and> ksmem_isMemoryReadable (sect_readable sect) minimalSize
           \<and> (message (sect_info sect) \<noteq> NULL \<or> message2 (sect_info sect) \<noteq> NULL) \<longrightarrow>
           crashInfoMessage d =
             (if isValidCrashInfoMessage (message (sect_info sect))
              then message (sect_info sect) else crashInfoMessage buffer)
           \<and> crashInfoMessage2 d =
             (if isValidCrashInfoMessage (message2 (sect_info sect))
              then message2 (sect_info sect) else crashInfoMessage2 buffer)
           \<and> crashInfoBacktrace d =
             (if isValidCrashInfoMessage (backtrace (sect_info sect))
              then backtrace (sect_info sect) else crashInfoBacktrace buffer)
           \<and> crashInfoSignature d =
             (if isValidCrashInfoMessage (signature (sect_info sect))
              then signature (sect_info sect) else crashInfoSignature buffer))"
proof -
  define l where "l = scan_cmds (header_cmds h) init_locals"
  define b where "b = fill_buffer (Some (a, h)) h sl nm l buffer"
  define b0 where "b0 = fill_buffer (Some (a, h\<lparr>crash_info_sect := None\<rparr>)) h sl nm l buffer"
  define d where "d = (getCrashInfo b)\<lparr>next_img := None\<rparr>"
  define d0 where "d0 = (getCrashInfo b0)\<lparr>next_img := None\<rparr>"
  have hb: "header b = Some (a, h)" by (simp add: b_def)
  have P: "ksdl_getBinaryImageForHeader env infos (Some (a, h)) sl buffer = Some d"
    unfolding d_def b_def l_def by (rule parse_Some [OF assms])
  have P0: "ksdl_getBinaryImageForHeader env infos (Some (a, h\<lparr>crash_info_sect := None\<rparr>)) sl
              buffer = Some d0"
    unfolding d0_def b0_def l_def
    using parse_Some [of a "h\<lparr>crash_info_sect := None\<rparr>" env infos nm sl buffer] assms
    by (simp add: first_cmd_sect_irrelevant get_path_sect_irrelevant header_cmds_sect_irrelevant
          fill_buffer_sect_irrelevant)
  have "getsectiondata (header b0) = None"
    by (simp add: b0_def getsectiondata_def)
  then have g0: "getCrashInfo b0 = b0"
    by (simp add: getCrashInfo_skip)
  have bb0: "b = b0\<lparr>header := Some (a, h)\<rparr>"
    by (simp add: b_def b0_def fill_buffer_def)
  have frame: "d = d0\<lparr> header := Some (a, h),
               crashInfoMessage := crashInfoMessage d,
               crashInfoMessage2 := crashInfoMessage2 d,
               crashInfoBacktrace := crashInfoBacktrace d,
               crashInfoSignature := crashInfoSignature d \<rparr>"
    unfolding d_def d0_def g0
    by (subst getCrashInfo_frame) (simp add: bb0)
  have skip: "crashInfoMessage d = crashInfoMessage buffer
           \<and> crashInfoMessage2 d = crashInfoMessage2 buffer
           \<and> crashInfoBacktrace d = crashInfoBacktrace buffer
           \<and> crashInfoSignature d = crashInfoSignature buffer"
    if "crash_info_sect h = Some sect \<and>
           ((version (sect_info sect) \<noteq> 4 \<and> version (sect_info sect) \<noteq> 5)
            \<or> unat (sect_size sect) < minimalSize
            \<or> \<not> ksmem_isMemoryReadable (sect_readable sect) minimalSize
            \<or> (message (sect_info sect) = NULL \<and> message2 (sect_info sect) = NULL))" for sect
  proof -
    from that have "getsectiondata (header b) = Some sect"
      by (simp add: hb getsectiondata_def)
    with that have "getCrashInfo b = b"
      by (intro getCrashInfo_skip) blast
    then show ?thesis by (simp add: d_def b_def)
  qed
  have rd: "crashInfoMessage d =
             (if isValidCrashInfoMessage (message (sect_info sect))
              then message (sect_info sect) else crashInfoMessage buffer)
           \<and> crashInfoMessage2 d =
             (if isValidCrashInfoMessage (message2 (sect_info sect))
              then message2 (sect_info sect) else crashInfoMessage2 buffer)
           \<and> crashInfoBacktrace d =
             (if isValidCrashInfoMessage (backtrace (sect_info sect))
              then backtrace (sect_info sect) else crashInfoBacktrace buffer)
           \<and> crashInfoSignature d =
             (if isValidCrashInfoMessage (signature (sect_info sect))
              then signature (sect_info sect) else crashInfoSignature buffer)"
    if "crash_info_sect h = Some sect \<and>
           (version (sect_info sect) = 4 \<or> version (sect_info sect) = 5)
           \<and> \<not> unat (sect_size sect) < minimalSize
           \<and> ksmem_isMemoryReadable (sect_readable sect) minimalSize
           \<and> (message (sect_info sect) \<noteq> NULL \<or> message2 (sect_info sect) \<noteq> NULL)" for sect
  proof -
    from that have gs: "getsectiondata (header b) = Some sect"
      by (simp add: hb getsectiondata_def)
    from that have c: "\<not> unat (sect_size sect) < minimalSize"
      "ksmem_isMemoryReadable (sect_readable sect) minimalSize"
      "version (sect_info sect) = 4 \<or> version (sect_info sect) = 5"
      "message (sect_info sect) \<noteq> NULL \<or> message2 (sect_info sect) \<noteq> NULL"
      by blast+
    note r = getCrashInfo_read [OF gs c]
    have cb: "crashInfoMessage b = crashInfoMessage buffer"
      "crashInfoMessage2 b = crashInfoMessage2 buffer"
      "crashInfoBacktrace b = crashInfoBacktrace buffer"
      "crashInfoSignature b = crashInfoSignature buffer"
      by (simp_all add: b_def)
    show ?thesis
      unfolding d_def using r by (simp add: cb)
  qed
  from P P0 frame skip rd show ?thesis by blast
qed


lemma ex_valid_hi: "isValidCrashInfoMessage (Ptr [0x68, 0x69, 0])"
  by (simp add: isValidCrashInfoMessage_def ksmem_maxReadableBytes_def
        KSDL_MaxCrashInfoStringLength_def find_nul.simps)

lemma ex_first_cmd_crash:
  "ksdl_first_cmd_after_header (Some (0x100001000, ex_header\<lparr>crash_info_sect := cs\<rparr>)) \<noteq> 0"
  by (simp add: ksdl_first_cmd_after_header_def ex_header_def sizeof_mach_header_64_def
        MH_MAGIC_def MH_MAGIC_64_def MH_CIGAM_def MH_CIGAM_64_def)

lemma ex_path_crash:
  "get_path ex_env None (Some (0x100001000, h)) = Some ''/usr/lib/libexample.dylib''"
  by (simp add: get_path_def ex_env_def)

text \<open>
  The example section sets the first message only; with version 3 it sets nothing.
\<close>

theorem crash_info_never_fatal_witness:
  "map_option crashInfoMessage
     (ksdl_getBinaryImageForHeader ex_env None ex_hdr_crash ex_slide zero_image)
     = Some (Ptr [0x68, 0x69, 0])
   \<and> map_option crashInfoMessage2
     (ksdl_getBinaryImageForHeader ex_env None ex_hdr_crash ex_slide zero_image) = Some NULL
   \<and> map_option crashInfoBacktrace
     (ksdl_getBinaryImageForHeader ex_env None ex_hdr_crash ex_slide zero_image) = Some NULL
   \<and> map_option crashInfoSignature
     (ksdl_getBinaryImageForHeader ex_env None ex_hdr_crash ex_slide zero_image) = Some NULL
   \<and> map_option crashInfoMessage
     (ksdl_getBinaryImageForHeader ex_env None ex_hdr_crash_v3 ex_slide zero_image) = Some NULL
   \<and> map_option crashInfoMessage2
     (ksdl_getBinaryImageForHeader ex_env None ex_hdr_crash_v3 ex_slide zero_image) = Some NULL
   \<and> map_option crashInfoBacktrace
     (ksdl_getBinaryImageForHeader ex_env None ex_hdr_crash_v3 ex_slide zero_image) = Some NULL
   \<and> map_option crashInfoSignature
     (ksdl_getBinaryImageForHeader ex_env None ex_hdr_crash_v3 ex_slide zero_image) = Some NULL"
proof -
  let ?h = "ex_header\<lparr>crash_info_sect := Some ex_section\<rparr>"
  let ?s3 = "ex_section\<lparr>sect_info := ex_crash_info\<lparr>version := 3\<rparr>\<rparr>"
  let ?h3 = "ex_header\<lparr>crash_info_sect := Some ?s3\<rparr>"
  have z: "crashInfoMessage zero_image = NULL" "crashInfoMessage2 zero_image = NULL"
    "crashInfoBacktrace zero_image = NULL" "crashInfoSignature zero_image = NULL"
    by (simp_all add: zero_image_def)
  have inv: "\<not> isValidCrashInfoMessage (Ptr [])" "\<not> isValidCrashInfoMessage (Ptr [0x41, 0x42])"
    by (simp_all add: isValidCrashInfoMessage_def ksmem_maxReadableBytes_def
        KSDL_MaxCrashInfoStringLength_def find_nul.simps)
  from crash_info_never_fatal [OF ex_first_cmd_crash ex_path_crash, of "Some ex_section" ex_slide zero_image]
  obtain d where d: "ksdl_getBinaryImageForHeader ex_env None (Some (0x100001000, ?h)) ex_slide zero_image = Some d"
    and rd: "\<And>sect. crash_info_sect ?h = Some sect \<and>
           (version (sect_info sect) = 4 \<or> version (sect_info sect) = 5)
           \<and> \<not> unat (sect_size sect) < minimalSize
           \<and> ksmem_isMemoryReadable (sect_readable sect) minimalSize
           \<and> (message (sect_info sect) \<noteq> NULL \<or> message2 (sect_info sect) \<noteq> NULL) \<Longrightarrow>
           crashInfoMessage d =
             (if isValidCrashInfoMessage (message (sect_info sect))
              then message (sect_info sect) else crashInfoMessage zero_image)
           \<and> crashInfoMessage2 d =
             (if isValidCrashInfoMessage (message2 (sect_info sect))
              then message2 (sect_info sect) else crashInfoMessage2 zero_image)
           \<and> crashInfoBacktrace d =
             (if isValidCrashInfoMessage (backtrace (sect_info sect))
              then backtrace (sect_info sect) else crashInfoBacktrace zero_image)
           \<and> crashInfoSignature d =
             (if isValidCrashInfoMessage (signature (sect_info sect))
              then signature (sect_info sect) else crashInfoSignature zero_image)"
    by blast
  have "crashInfoMessage d = Ptr [0x68, 0x69, 0] \<and> crashInfoMessage2 d = NULL
        \<and> crashInfoBacktrace d = NULL \<and> crashInfoSignature d = NULL"
    using rd [of ex_section] ex_valid_hi inv
    by (simp add: ex_section_def ex_crash_info_def minimalSize_def ksmem_isMemoryReadable_def z)
  with d have A: "map_option crashInfoMessage
     (ksdl_getBinaryImageForHeader ex_env None ex_hdr_crash ex_slide zero_image)
     = Some (Ptr [0x68, 0x69, 0])
   \<and> map_option crashInfoMessage2
     (ksdl_getBinaryImageForHeader ex_env None ex_hdr_crash ex_slide zero_image) = Some NULL
   \<and> map_option crashInfoBacktrace
     (ksdl_getBinaryImageForHeader ex_env None ex_hdr_crash ex_slide zero_image) = Some NULL
   \<and> map_option crashInfoSignature
     (ksdl_getBinaryImageForHeader ex_env None ex_hdr_crash ex_slide zero_image) = Some NULL"
    by (simp add: ex_hdr_crash_def)
  from crash_info_never_fatal [OF ex_first_cmd_crash ex_path_crash, of "Some ?s3" ex_slide zero_image]
  obtain d3 where d3: "ksdl_getBinaryImageForHeader ex_env None (Some (0x100001000, ?h3)) ex_slide zero_image = Some d3"
    and sk: "\<And>sect. crash_info_sect ?h3 = Some sect \<and>
           ((version (sect_info sect) \<noteq> 4 \<and> version (sect_info sect) \<noteq> 5)
            \<or> unat (sect_size sect) < minimalSize
            \<or> \<not> ksmem_isMemoryReadable (sect_readable sect) minimalSize
            \<or> (message (sect_info sect) = NULL \<and> message2 (sect_info sect) = NULL)) \<Longrightarrow>
           crashInfoMessage d3 = crashInfoMessage zero_image
           \<and> crashInfoMessage2 d3 = crashInfoMessage2 zero_image
           \<and> crashInfoBacktrace d3 = crashInfoBacktrace zero_image
           \<and> crashInfoSignature d3 = crashInfoSignature zero_image"
    by blast
  have "crashInfoMessage d3 = NULL \<and> crashInfoMessage2 d3 = NULL
        \<and> crashInfoBacktrace d3 = NULL \<and> crashInfoSignature d3 = NULL"
    using sk [of ?s3] by (simp add: z)
  with d3 have B: "map_option crashInfoMessage
     (ksdl_getBinaryImageForHeader ex_env None ex_hdr_crash_v3 ex_slide zero_image) = Some NULL
   \<and> map_option crashInfoMessage2
     (ksdl_getBinaryImageForHeader ex_env None ex_hdr_crash_v3 ex_slide zero_image) = Some NULL
   \<and> map_option crashInfoBacktrace
     (ksdl_getBinaryImageForHeader ex_env None ex_hdr_crash_v3 ex_slide zero_image) = Some NULL
   \<and> map_option crashInfoSignature
     (ksdl_getBinaryImageForHeader ex_env None ex_hdr_crash_v3 ex_slide zero_image) = Some NULL"
    by (simp add: ex_hdr_crash_v3_def)
  from A B show ?thesis by simp
qed


text \<open>
  Claim C8, as amended. The validator accepts a pointer exactly when it is not null, at
  least one byte is readable at it, and a NUL byte occurs among its readable bytes within
  the first \<^verbatim>\<open>KSDL_MaxCrashInfoStringLength + 1\<close> = 4097 bytes (a string of at most 4096
  characters and its terminator). A pointer to unmapped memory is rejected, a readable
  buffer without a NUL byte is rejected whatever its length, and a rejected field is left
  as it was on the descriptor.
\<close>

theorem crash_info_message_validation:
  "(isValidCrashInfoMessage str \<longleftrightarrow>
      (\<exists>readable. str = Ptr readable \<and> 0 < length readable
         \<and> (\<exists>j. j < length readable \<and> j < KSDL_MaxCrashInfoStringLength + 1
                \<and> readable ! j = 0)))
   \<and> \<not> isValidCrashInfoMessage (Ptr [])
   \<and> ((\<forall>j < length bytes. bytes ! j \<noteq> 0) \<longrightarrow> \<not> isValidCrashInfoMessage (Ptr bytes))
   \<and> (getsectiondata (header b) = Some sect \<longrightarrow>
        (\<not> isValidCrashInfoMessage (message (sect_info sect)) \<longrightarrow>
           crashInfoMessage (getCrashInfo b) = crashInfoMessage b)
        \<and> (\<not> isValidCrashInfoMessage (message2 (sect_info sect)) \<longrightarrow>
           crashInfoMessage2 (getCrashInfo b) = crashInfoMessage2 b)
        \<and> (\<not> isValidCrashInfoMessage (backtrace (sect_info sect)) \<longrightarrow>
           crashInfoBacktrace (getCrashInfo b) = crashInfoBacktrace b)
        \<and> (\<not> isValidCrashInfoMessage (signature (sect_info sect)) \<longrightarrow>
           crashInfoSignature (getCrashInfo b) = crashInfoSignature b))"
proof (intro conjI impI)
  show "isValidCrashInfoMessage str \<longleftrightarrow>
      (\<exists>readable. str = Ptr readable \<and> 0 < length readable
         \<and> (\<exists>j. j < length readable \<and> j < KSDL_MaxCrashInfoStringLength + 1
                \<and> readable ! j = 0))"
  proof (cases str)
    case NULL
    then show ?thesis by simp
  next
    case (Ptr readable)
    have "isValidCrashInfoMessage (Ptr readable) \<longleftrightarrow>
            (\<exists>j. j < length readable \<and> j < KSDL_MaxCrashInfoStringLength + 1 \<and> readable ! j = 0)"
      unfolding isValidCrashInfoMessage_Ptr by auto
    also have "\<dots> \<longleftrightarrow> 0 < length readable
         \<and> (\<exists>j. j < length readable \<and> j < KSDL_MaxCrashInfoStringLength + 1
                \<and> readable ! j = 0)"
      by auto
    finally show ?thesis using Ptr by simp
  qed
next
  show "\<not> isValidCrashInfoMessage (Ptr [])"
    by (simp add: isValidCrashInfoMessage_Ptr)
next
  assume "\<forall>j < length bytes. bytes ! j \<noteq> 0"
  then show "\<not> isValidCrashInfoMessage (Ptr bytes)"
    by (simp add: isValidCrashInfoMessage_Ptr)
next
  assume gs: "getsectiondata (header b) = Some sect"
  {
    assume "\<not> isValidCrashInfoMessage (message (sect_info sect))"
    then show "crashInfoMessage (getCrashInfo b) = crashInfoMessage b"
      by (rule getCrashInfo_invalid_unset(1) [OF gs])
  next
    assume "\<not> isValidCrashInfoMessage (message2 (sect_info sect))"
    then show "crashInfoMessage2 (getCrashInfo b) = crashInfoMessage2 b"
      by (rule getCrashInfo_invalid_unset(2) [OF gs])
  next
    assume "\<not> isValidCrashInfoMessage (backtrace (sect_info sect))"
    then show "crashInfoBacktrace (getCrashInfo b) = crashInfoBacktrace b"
      by (rule getCrashInfo_invalid_unset(3) [OF gs])
  next
    assume "\<not> isValidCrashInfoMessage (signature (sect_info sect))"
    then show "crashInfoSignature (getCrashInfo b) = crashInfoSignature b"
      by (rule getCrashInfo_invalid_unset(4) [OF gs])
  }
qed

text \<open>
  A terminated string is accepted; unmapped memory and 4097 bytes without a terminator
  are rejected; the rejected second message and signature of the example stay null.
\<close>

theorem crash_info_message_validation_witness:
  "isValidCrashInfoMessage (Ptr [0x68, 0x69, 0])
   \<and> \<not> isValidCrashInfoMessage (Ptr [])
   \<and> \<not> isValidCrashInfoMessage (Ptr (replicate 4097 0x41))
   \<and> getsectiondata (header (zero_image\<lparr>header := ex_hdr_crash\<rparr>)) = Some ex_section
   \<and> crashInfoMessage2 (getCrashInfo (zero_image\<lparr>header := ex_hdr_crash\<rparr>)) = NULL
   \<and> crashInfoSignature (getCrashInfo (zero_image\<lparr>header := ex_hdr_crash\<rparr>)) = NULL"
proof -
  let ?b = "zero_image\<lparr>header := ex_hdr_crash\<rparr>"
  note T = crash_info_message_validation
    [of "Ptr [0x68, 0x69, 0]" "replicate 4097 0x41" ?b ex_section]
  have "(\<exists>readable :: 8 word list. Ptr [0x68, 0x69, 0] = Ptr readable \<and> 0 < length readable
         \<and> (\<exists>j. j < length readable \<and> j < KSDL_MaxCrashInfoStringLength + 1
                \<and> readable ! j = 0))"
    by (intro exI [of _ "[0x68, 0x69, 0]"] conjI exI [of _ 2])
       (simp_all add: KSDL_MaxCrashInfoStringLength_def)
  with T have 1: "isValidCrashInfoMessage (Ptr [0x68, 0x69, 0])" by blast
  from T have 2: "\<not> isValidCrashInfoMessage (Ptr [])" by blast
  have "\<forall>j < length (replicate 4097 (0x41 :: 8 word)). replicate 4097 (0x41 :: 8 word) ! j \<noteq> 0"
    by simp
  with T have 3: "\<not> isValidCrashInfoMessage (Ptr (replicate 4097 0x41))" by blast
  have gs: "getsectiondata (header ?b) = Some ex_section"
    by (simp add: getsectiondata_def ex_hdr_crash_def)
  have "\<not> isValidCrashInfoMessage (message2 (sect_info ex_section))"
    using 2 by (simp add: ex_section_def ex_crash_info_def)
  with T gs have "crashInfoMessage2 (getCrashInfo ?b) = crashInfoMessage2 ?b" by blast
  then have 4: "crashInfoMessage2 (getCrashInfo ?b) = NULL" by (simp add: zero_image_def)
  have "\<forall>j < length [0x41, 0x42 :: 8 word]. [0x41, 0x42 :: 8 word] ! j \<noteq> 0"
    by (simp add: nth_Cons' All_less_Suc)
  with crash_info_message_validation [of NULL "[0x41, 0x42]" ?b ex_section]
  have "\<not> isValidCrashInfoMessage (Ptr [0x41, 0x42])" by blast
  then have "\<not> isValidCrashInfoMessage (signature (sect_info ex_section))"
    by (simp add: ex_section_def ex_crash_info_def)
  with T gs have "crashInfoSignature (getCrashInfo ?b) = crashInfoSignature ?b" by blast
  then have 5: "crashInfoSignature (getCrashInfo ?b) = NULL" by (simp add: zero_image_def)
  from 1 2 3 gs 4 5 show ?thesis by blast
qed

text \<open>
  With 4096 as the bound on the bytes inspected the claim fails: 4096 non-NUL bytes followed
  by the terminator are accepted, although no NUL byte occurs within the first 4096 bytes.
\<close>

theorem nul_at_index_4096_counterexample:
  "isValidCrashInfoMessage (Ptr (replicate 4096 0x41 @ [0]))
   \<and> 0 \<notin> set (take 4096 (replicate 4096 (0x41 :: 8 word) @ [0]))"
proof -
  have "(replicate 4096 (0x41 :: 8 word) @ [0]) ! 4096 = 0"
    by (simp add: nth_append)
  then have "isValidCrashInfoMessage (Ptr (replicate 4096 0x41 @ [0]))"
    unfolding isValidCrashInfoMessage_Ptr KSDL_MaxCrashInfoStringLength_def
    by (intro exI[of _ 4096] conjI) simp_all
  then show ?thesis by simp
qed


lemma fill_buffer_versions [simp]:
  "majorVersion (fill_buffer hdr h sl nm l b) = drop_bit 16 (version_l l)"
  "minorVersion (fill_buffer hdr h sl nm l b) = drop_bit 8 (version_l l) AND 0xff"
  "revisionVersion (fill_buffer hdr h sl nm l b) = version_l l AND 0xff"
  by (simp_all add: fill_buffer_def)

lemma parse_versions:
  assumes "ksdl_getBinaryImageForHeader env infos (Some (a, h)) sl buffer = Some d"
  shows "majorVersion d = drop_bit 16 (version_l (scan_cmds (header_cmds h) init_locals))"
    and "minorVersion d = drop_bit 8 (version_l (scan_cmds (header_cmds h) init_locals)) AND 0xff"
    and "revisionVersion d = version_l (scan_cmds (header_cmds h) init_locals) AND 0xff"
proof -
  from assms obtain a' h' nm where "Some (a, h) = Some (a', h')"
    and d: "d = (getCrashInfo (fill_buffer (Some (a, h)) h' sl nm
                    (scan_cmds (header_cmds h') init_locals) buffer))\<lparr>next_img := None\<rparr>"
    by (rule parse_SomeD)
  then have "h' = h" by simp
  with d show "majorVersion d = drop_bit 16 (version_l (scan_cmds (header_cmds h) init_locals))"
    and "minorVersion d = drop_bit 8 (version_l (scan_cmds (header_cmds h) init_locals)) AND 0xff"
    and "revisionVersion d = version_l (scan_cmds (header_cmds h) init_locals) AND 0xff"
    by simp_all
qed

text \<open>
  Claim C9. When the parser succeeds on an image whose command table (its first
  \<^verbatim>\<open>ncmds\<close> commands) holds a dynamic-library-identity command, the version triple is read
  from the \<^verbatim>\<open>current_version\<close> of that command (of the last one, should there be several):
  the major version is its bits 31-16, the minor version its bits 15-8 and the revision its
  bits 7-0. When the table holds no such command all three are zero.
\<close>

theorem version_triple_from_current_version:
  assumes "ksdl_getBinaryImageForHeader env infos (Some (a, h)) sl buffer = Some d"
  shows "(header_cmds h = pre @ LC_ID_DYLIB cv # post
            \<and> (\<forall>c \<in> set post. \<forall>v. c \<noteq> LC_ID_DYLIB v) \<longrightarrow>
            (\<forall>n. bit (majorVersion d) n \<longleftrightarrow> n < 16 \<and> bit cv (n + 16))
          \<and> (\<forall>n. bit (minorVersion d) n \<longleftrightarrow> n < 8 \<and> bit cv (n + 8))
          \<and> (\<forall>n. bit (revisionVersion d) n \<longleftrightarrow> n < 8 \<and> bit cv n)
          \<and> unat (majorVersion d) = unat cv div 2 ^ 16
          \<and> unat (minorVersion d) = unat cv div 2 ^ 8 mod 2 ^ 8
          \<and> unat (revisionVersion d) = unat cv mod 2 ^ 8)
       \<and> ((\<forall>c \<in> set (header_cmds h). \<forall>v. c \<noteq> LC_ID_DYLIB v) \<longrightarrow>
            majorVersion d = 0 \<and> minorVersion d = 0 \<and> revisionVersion d = 0)"
proof (intro conjI impI)
  note v = parse_versions [OF assms]
  {
    assume "header_cmds h = pre @ LC_ID_DYLIB cv # post
            \<and> (\<forall>c \<in> set post. \<forall>v. c \<noteq> LC_ID_DYLIB v)"
    then have "version_l (scan_cmds (header_cmds h) init_locals) = ucast cv"
      by (simp add: scan_cmds_version_last)
    with v have M: "majorVersion d = drop_bit 16 (ucast cv)"
      and m: "minorVersion d = drop_bit 8 (ucast cv) AND 0xff"
      and r: "revisionVersion d = ucast cv AND 0xff"
      by simp_all
    show "\<forall>n. bit (majorVersion d) n \<longleftrightarrow> n < 16 \<and> bit cv (n + 16)"
      unfolding M by (simp only: major_bits) simp
    show "\<forall>n. bit (minorVersion d) n \<longleftrightarrow> n < 8 \<and> bit cv (n + 8)"
      unfolding m by (simp only: minor_bits) simp
    show "\<forall>n. bit (revisionVersion d) n \<longleftrightarrow> n < 8 \<and> bit cv n"
      unfolding r by (simp only: revision_bits) simp
    show "unat (majorVersion d) = unat cv div 2 ^ 16"
      unfolding M by (rule major_unat)
    show "unat (minorVersion d) = unat cv div 2 ^ 8 mod 2 ^ 8"
      unfolding m by (rule minor_unat)
    show "unat (revisionVersion d) = unat cv mod 2 ^ 8"
      unfolding r by (rule revision_unat)
  }
  {
    assume "\<forall>c \<in> set (header_cmds h). \<forall>v. c \<noteq> LC_ID_DYLIB v"
    then have "version_l (scan_cmds (header_cmds h) init_locals) = 0"
      by (simp add: scan_cmds_version_other init_locals_def)
    with v show "majorVersion d = 0" and "minorVersion d = 0" and "revisionVersion d = 0"
      by simp_all
  }
qed

lemma ex_path2: "get_path ex_env None ex_hdr2 = Some ''/Applications/Example''"
  by (simp add: get_path_def ex_env_def ex_hdr2_def)

lemma ex_first_cmd2: "ksdl_first_cmd_after_header ex_hdr2 \<noteq> 0"
  by (simp add: ksdl_first_cmd_after_header_def ex_hdr2_def ex_header2_def sizeof_mach_header_64_def
        MH_MAGIC_def MH_MAGIC_64_def MH_CIGAM_def MH_CIGAM_64_def)

text \<open>
  The example library declares \<open>0x00010203\<close>, that is 1.2.3; the example executable has no
  identity command.
\<close>

theorem version_triple_from_current_version_witness:
  "map_option majorVersion
     (ksdl_getBinaryImageForHeader ex_env None ex_hdr ex_slide zero_image) = Some 1
   \<and> map_option minorVersion
     (ksdl_getBinaryImageForHeader ex_env None ex_hdr ex_slide zero_image) = Some 2
   \<and> map_option revisionVersion
     (ksdl_getBinaryImageForHeader ex_env None ex_hdr ex_slide zero_image) = Some 3
   \<and> map_option majorVersion
     (ksdl_getBinaryImageForHeader ex_env None ex_hdr2 0 zero_image) = Some 0
   \<and> map_option minorVersion
     (ksdl_getBinaryImageForHeader ex_env None ex_hdr2 0 zero_image) = Some 0
   \<and> map_option revisionVersion
     (ksdl_getBinaryImageForHeader ex_env None ex_hdr2 0 zero_image) = Some 0"
proof -
  have "ksdl_getBinaryImageForHeader ex_env None ex_hdr ex_slide zero_image \<noteq> None"
    using ex_path ex_first_cmd by (simp add: parse_None_iff)
  then obtain d where d: "ksdl_getBinaryImageForHeader ex_env None
      (Some (0x100001000, ex_header)) ex_slide zero_image = Some d"
    by (auto simp: ex_hdr_def)
  have c: "header_cmds ex_header =
      [LC_SEGMENT_64 ''__PAGEZERO'' 0 0x1000, LC_SEGMENT_64 ''__TEXT'' 0x1000 0x4000,
       LC_UUID [1, 2, 3, 4, 5, 6, 7, 8, 9, 10, 11, 12, 13, 14, 15, 16]]
      @ LC_ID_DYLIB 0x00010203 # [LC_OTHER 0x26]
      \<and> (\<forall>c \<in> set [LC_OTHER 0x26]. \<forall>v. c \<noteq> LC_ID_DYLIB v)"
    by (simp add: ex_header_cmds ex_cmds_def)
  from version_triple_from_current_version [OF d] c
  have "unat (majorVersion d) = unat (0x00010203 :: u32) div 2 ^ 16
      \<and> unat (minorVersion d) = unat (0x00010203 :: u32) div 2 ^ 8 mod 2 ^ 8
      \<and> unat (revisionVersion d) = unat (0x00010203 :: u32) mod 2 ^ 8"
    by blast
  then have "unat (majorVersion d) = 1 \<and> unat (minorVersion d) = 2 \<and> unat (revisionVersion d) = 3"
    by simp
  then have "word_of_nat (unat (majorVersion d)) = (word_of_nat 1 :: u64)
      \<and> word_of_nat (unat (minorVersion d)) = (word_of_nat 2 :: u64)
      \<and> word_of_nat (unat (revisionVersion d)) = (word_of_nat 3 :: u64)"
    by simp
  then have "majorVersion d = 1 \<and> minorVersion d = 2 \<and> revisionVersion d = 3"
    by simp
  with d have A: "map_option majorVersion
     (ksdl_getBinaryImageForHeader ex_env None ex_hdr ex_slide zero_image) = Some 1
   \<and> map_option minorVersion
     (ksdl_getBinaryImageForHeader ex_env None ex_hdr ex_slide zero_image) = Some 2
   \<and> map_option revisionVersion
     (ksdl_getBinaryImageForHeader ex_env None ex_hdr ex_slide zero_image) = Some 3"
    by (simp add: ex_hdr_def)
  have "ksdl_getBinaryImageForHeader ex_env None ex_hdr2 0 zero_image \<noteq> None"
    using ex_path2 ex_first_cmd2 by (simp add: parse_None_iff)
  then obtain d2 where d2: "ksdl_getBinaryImageForHeader ex_env None
      (Some (0x200000000, ex_header2)) 0 zero_image = Some d2"
    by (auto simp: ex_hdr2_def)
  have c2: "\<forall>c \<in> set (header_cmds ex_header2). \<forall>v. c \<noteq> LC_ID_DYLIB v"
    by (simp add: header_cmds_def ex_header2_def)
  from version_triple_from_current_version [OF d2] c2
  have "majorVersion d2 = 0 \<and> minorVersion d2 = 0 \<and> revisionVersion d2 = 0"
    by blast
  with d2 have B: "map_option majorVersion
     (ksdl_getBinaryImageForHeader ex_env None ex_hdr2 0 zero_image) = Some 0
   \<and> map_option minorVersion
     (ksdl_getBinaryImageForHeader ex_env None ex_hdr2 0 zero_image) = Some 0
   \<and> map_option revisionVersion
     (ksdl_getBinaryImageForHeader ex_env None ex_hdr2 0 zero_image) = Some 0"
    by (simp add: ex_hdr2_def)
  from A B show ?thesis by simp
qed

lemma parse_header:
  "ksdl_getBinaryImageForHeader env infos hdr sl buf = Some d \<Longrightarrow> header d = hdr"
  by (erule parse_SomeD) simp

section \<open>The registry: invariants\<close>

lemma chain_mem_next:
  "chain_mem mem n \<Longrightarrow> p < n \<Longrightarrow> next_img (mem p) = Some (Suc p)"
  "chain_mem mem n \<Longrightarrow> next_img (mem n) = None"
  by (simp_all add: chain_mem_def)

lemma traverse_from_chain:
  "chain_mem mem n \<Longrightarrow> p \<le> n \<Longrightarrow> traverse_from mem (Some p) = Some [p..<Suc n]"
proof (induction "n - p" arbitrary: p)
  case 0
  then have "p = n" by simp
  with 0 show ?case
    by (subst traverse_from.simps) (simp add: chain_mem_next traverse_from.simps)
next
  case (Suc k)
  then have lt: "p < n" and k: "k = n - Suc p" by simp_all
  with Suc have IH: "traverse_from mem (Some (Suc p)) = Some [Suc p..<Suc n]" by simp
  have "[p..<Suc n] = p # [Suc p..<Suc n]"
    using lt by (simp add: upt_conv_Cons)
  then show ?case
    using Suc.prems lt IH by (subst traverse_from.simps) (simp add: chain_mem_next)
qed

lemma get_images_linked:
  "chain_mem (images s) (allocated s) \<Longrightarrow>
     ksdl_get_images s = (if 0 < allocated s then Some 1 else None)"
  by (simp add: ksdl_get_images_def chain_mem_def)

lemma linked_chain: "linked s \<Longrightarrow> chain_mem (images s) (allocated s)"
  by (simp add: linked_def)

lemma traverse_linked:
  assumes "linked s"
  shows "traverse s = Some [1..<Suc (allocated s)]"
proof -
  note c = linked_chain [OF assms]
  show ?thesis
  proof (cases "0 < allocated s")
    case True
    then have "1 \<le> allocated s" by simp
    from traverse_from_chain [OF c this] True show ?thesis
      by (simp only: traverse_def get_images_linked [OF c] if_True)
  next
    case False
    then show ?thesis
      by (simp add: traverse_def get_images_linked [OF c] traverse_from.simps)
  qed
qed

lemma image_at_address_loop_chain:
  "chain_mem mem n \<Longrightarrow> p \<le> n \<Longrightarrow>
     image_at_address_loop mem (Some p) a =
       Some (find (\<lambda>q. contains_address (mem q) a) [p..<Suc n])"
proof (induction "n - p" arbitrary: p)
  case 0
  then have "p = n" by simp
  with 0 show ?case
    by (subst image_at_address_loop.simps)
       (simp add: chain_mem_next image_at_address_loop.simps)
next
  case (Suc k)
  then have lt: "p < n" and k: "k = n - Suc p" by simp_all
  with Suc have IH: "image_at_address_loop mem (Some (Suc p)) a =
       Some (find (\<lambda>q. contains_address (mem q) a) [Suc p..<Suc n])" by simp
  have "[p..<Suc n] = p # [Suc p..<Suc n]"
    using lt by (simp add: upt_conv_Cons)
  then show ?case
    using Suc.prems lt IH by (subst image_at_address_loop.simps) (simp add: chain_mem_next)
qed

lemma image_at_address_linked:
  assumes "linked s"
  shows "ksdl_image_at_address s a =
           Some (find (\<lambda>q. contains_address (images s q) a) [1..<Suc (allocated s)])"
proof -
  note c = linked_chain [OF assms]
  show ?thesis
  proof (cases "0 < allocated s")
    case True
    then have "1 \<le> allocated s" by simp
    from image_at_address_loop_chain [OF c this] True show ?thesis
      by (simp only: ksdl_image_at_address_def get_images_linked [OF c] if_True)
  next
    case False
    then show ?thesis
      by (simp add: ksdl_image_at_address_def get_images_linked [OF c]
            image_at_address_loop.simps)
  qed
qed


lemma strstr_iff:
  "strstr haystack needle \<noteq> None \<longleftrightarrow> (\<exists>pre post. haystack = pre @ needle @ post)"
proof (induction haystack)
  case Nil
  then show ?case by simp
next
  case (Cons c haystack)
  show ?case
  proof (cases "take (length needle) (c # haystack) = needle")
    case True
    then have "c # haystack = [] @ needle @ drop (length needle) (c # haystack)"
      by (metis append_Nil append_take_drop_id)
    then have "\<exists>pre post. c # haystack = pre @ needle @ post" by blast
    with True show ?thesis by simp
  next
    case False
    have "(\<exists>pre post. c # haystack = pre @ needle @ post)
            \<longleftrightarrow> (\<exists>pre post. haystack = pre @ needle @ post)"
    proof
      assume "\<exists>pre post. c # haystack = pre @ needle @ post"
      then obtain pre post where e: "c # haystack = pre @ needle @ post" by blast
      have "pre \<noteq> []"
      proof
        assume "pre = []"
        with e have "take (length needle) (c # haystack) = needle" by simp
        with False show False by contradiction
      qed
      then obtain pre' where "pre = c # pre'" using e by (cases pre) auto
      with e have "haystack = pre' @ needle @ post" by simp
      then show "\<exists>pre post. haystack = pre @ needle @ post" by blast
    next
      assume "\<exists>pre post. haystack = pre @ needle @ post"
      then obtain pre post where "haystack = pre @ needle @ post" by blast
      then have "c # haystack = (c # pre) @ needle @ post" by simp
      then show "\<exists>pre post. c # haystack = pre @ needle @ post" by blast
    qed
    with False Cons.IH show ?thesis by simp
  qed
qed

lemma imageNamed_loop_step:
  "imageNamed_loop mem (Some p) imageName exactMatch =
     (if name_matches (mem p) imageName exactMatch then Some (Some p)
      else imageNamed_loop mem (next_img (mem p)) imageName exactMatch)"
  by (subst imageNamed_loop.simps) (simp add: name_matches_def split: option.splits)

lemma imageNamed_loop_None:
  "imageNamed_loop mem None imageName exactMatch = Some None"
  by (subst imageNamed_loop.simps) simp

lemma imageNamed_loop_chain:
  "chain_mem mem n \<Longrightarrow> p \<le> n \<Longrightarrow>
     imageNamed_loop mem (Some p) imageName exactMatch =
       Some (find (\<lambda>q. name_matches (mem q) imageName exactMatch) [p..<Suc n])"
proof (induction "n - p" arbitrary: p)
  case 0
  then have "p = n" by simp
  with 0 show ?case
    by (simp add: imageNamed_loop_step chain_mem_next imageNamed_loop_None)
next
  case (Suc k)
  then have lt: "p < n" and k: "k = n - Suc p" by simp_all
  with Suc have IH: "imageNamed_loop mem (Some (Suc p)) imageName exactMatch =
       Some (find (\<lambda>q. name_matches (mem q) imageName exactMatch) [Suc p..<Suc n])" by simp
  have u: "[p..<Suc n] = p # [Suc p..<Suc n]"
    using lt by (simp add: upt_conv_Cons)
  have "imageNamed_loop mem (Some p) imageName exactMatch =
     (if name_matches (mem p) imageName exactMatch then Some (Some p)
      else imageNamed_loop mem (Some (Suc p)) imageName exactMatch)"
    using Suc.prems lt by (simp add: imageNamed_loop_step chain_mem_next)
  then show ?case
    unfolding u IH by simp
qed

lemma imageNamed_linked:
  assumes "linked s"
  shows "ksdl_imageNamed s (Some imageName) exactMatch =
       Some (find (\<lambda>q. name_matches (images s q) imageName exactMatch)
               [1..<Suc (allocated s)])"
proof -
  note c = linked_chain [OF assms]
  show ?thesis
  proof (cases "0 < allocated s")
    case True
    then have "1 \<le> allocated s" by simp
    from imageNamed_loop_chain [OF c this] True show ?thesis
      by (simp only: ksdl_imageNamed_def get_images_linked [OF c] if_True option.case)
  next
    case False
    then show ?thesis
      by (simp add: ksdl_imageNamed_def get_images_linked [OF c] imageNamed_loop_None)
  qed
qed

lemma chain_mem_unloaded_upd:
  "chain_mem mem n \<Longrightarrow> chain_mem (mem(p := (mem p)\<lparr>unloaded := True\<rparr>)) n"
  by (simp add: chain_mem_def)

lemma remove_image_loop_chain:
  "chain_mem mem n \<Longrightarrow> p \<le> n \<Longrightarrow>
     remove_image_loop vm (Some p) mem =
       Some (\<lambda>q. if p \<le> q \<and> q \<le> n \<and> vmAddress (mem q) = vm
                  then (mem q)\<lparr>unloaded := True\<rparr> else mem q)"
proof (induction "n - p" arbitrary: p mem)
  case 0
  then have pn: "p = n" by simp
  have "(\<lambda>q. if n \<le> q \<and> q \<le> n \<and> vmAddress (mem q) = vm
                  then (mem q)\<lparr>unloaded := True\<rparr> else mem q)
        = (if vmAddress (mem n) = vm then mem(n := (mem n)\<lparr>unloaded := True\<rparr>) else mem)"
    by (auto simp: fun_eq_iff)
  with 0 pn show ?case
    by (subst remove_image_loop.simps)
       (simp add: chain_mem_next remove_image_loop.simps)
next
  case (Suc k)
  then have lt: "p < n" and k: "k = n - Suc p" by simp_all
  define mem' where "mem' = (if vmAddress (mem p) = vm
                              then mem(p := (mem p)\<lparr>unloaded := True\<rparr>) else mem)"
  have c': "chain_mem mem' n"
    using Suc.prems(1) by (simp add: mem'_def chain_mem_unloaded_upd)
  have IH: "remove_image_loop vm (Some (Suc p)) mem' =
       Some (\<lambda>q. if Suc p \<le> q \<and> q \<le> n \<and> vmAddress (mem' q) = vm
                  then (mem' q)\<lparr>unloaded := True\<rparr> else mem' q)"
    using Suc.hyps(1) [OF k c'] lt by simp
  have eq: "(\<lambda>q. if Suc p \<le> q \<and> q \<le> n \<and> vmAddress (mem' q) = vm
                  then (mem' q)\<lparr>unloaded := True\<rparr> else mem' q)
        = (\<lambda>q. if p \<le> q \<and> q \<le> n \<and> vmAddress (mem q) = vm
                  then (mem q)\<lparr>unloaded := True\<rparr> else mem q)"
  proof
    fix q
    show "(if Suc p \<le> q \<and> q \<le> n \<and> vmAddress (mem' q) = vm
                  then (mem' q)\<lparr>unloaded := True\<rparr> else mem' q)
        = (if p \<le> q \<and> q \<le> n \<and> vmAddress (mem q) = vm
                  then (mem q)\<lparr>unloaded := True\<rparr> else mem q)"
    proof (cases "q = p")
      case True
      with lt show ?thesis by (simp add: mem'_def)
    next
      case False
      then have "mem' q = mem q" by (simp add: mem'_def)
      moreover from False have "Suc p \<le> q \<longleftrightarrow> p \<le> q" by auto
      ultimately show ?thesis by simp
    qed
  qed
  have step: "remove_image_loop vm (Some p) mem = remove_image_loop vm (Some (Suc p)) mem'"
    using Suc.prems(1) lt
    by (subst remove_image_loop.simps) (simp add: chain_mem_next mem'_def)
  show ?case
    unfolding step IH eq ..
qed


lemma parse_next_None:
  "ksdl_getBinaryImageForHeader env infos hdr sl buf = Some d \<Longrightarrow> next_img d = None"
  by (auto simp: ksdl_getBinaryImageForHeader_def Let_def split: option.splits if_splits)

lemma add_image_fail:
  "\<not> calloc_ok env (allocated s)
     \<or> ksdl_getBinaryImageForHeader env (g_all_image_infos s) hdr sl zero_image = None
   \<Longrightarrow> add_image env hdr sl s = s"
  by (auto simp: add_image_def)

lemma add_image_success:
  assumes "calloc_ok env (allocated s)"
    and "ksdl_getBinaryImageForHeader env (g_all_image_infos s) hdr sl zero_image = Some filled"
  shows "add_image env hdr sl s =
           s\<lparr> images := (images s)
                  (Suc (allocated s) := filled,
                   g_images_tail s :=
                     (((images s)(Suc (allocated s) := filled)) (g_images_tail s))
                       \<lparr>next_img := Some (Suc (allocated s))\<rparr>),
               allocated := Suc (allocated s),
               g_images_tail := Suc (allocated s),
               g_self_image := (if ptr_addr hdr = dso_handle env then Some (Suc (allocated s))
                                else g_self_image s) \<rparr>"
  using assms
  by (simp add: add_image_def Let_def atomic_exchange_tail_def atomic_store_next_def)

lemma add_image_success_linked:
  assumes "linked s" "calloc_ok env (allocated s)"
    and "ksdl_getBinaryImageForHeader env (g_all_image_infos s) hdr sl zero_image = Some filled"
  shows "allocated (add_image env hdr sl s) = Suc (allocated s)"
    and "images (add_image env hdr sl s) =
           (images s)(Suc (allocated s) := filled,
                      allocated s := (images s (allocated s))\<lparr>next_img := Some (Suc (allocated s))\<rparr>)"
    and "g_all_image_infos (add_image env hdr sl s) = g_all_image_infos s"
    and "is_image_list_initialized (add_image env hdr sl s) = is_image_list_initialized s"
    and "registrations (add_image env hdr sl s) = registrations s"
    and "linked (add_image env hdr sl s)"
proof -
  from assms(1) have t: "g_images_tail s = allocated s" by (simp add: linked_def)
  note e = add_image_success [OF assms(2,3), unfolded t]
  show "allocated (add_image env hdr sl s) = Suc (allocated s)" by (simp add: e)
  show im: "images (add_image env hdr sl s) =
           (images s)(Suc (allocated s) := filled,
                      allocated s := (images s (allocated s))\<lparr>next_img := Some (Suc (allocated s))\<rparr>)"
    by (simp add: e)
  show "g_all_image_infos (add_image env hdr sl s) = g_all_image_infos s" by (simp add: e)
  show "is_image_list_initialized (add_image env hdr sl s) = is_image_list_initialized s"
    by (simp add: e)
  show "registrations (add_image env hdr sl s) = registrations s" by (simp add: e)
  have n: "next_img filled = None" using assms(3) by (rule parse_next_None)
  from assms(1) have c: "chain_mem (images s) (allocated s)" by (simp add: linked_def)
  have "chain_mem (images (add_image env hdr sl s)) (Suc (allocated s))"
    unfolding im using c n by (auto simp: chain_mem_def)
  then show "linked (add_image env hdr sl s)"
    using assms(1) by (simp add: linked_def e)
qed

lemma add_image_linked:
  assumes "linked s"
  shows "linked (add_image env hdr sl s)"
proof (cases "calloc_ok env (allocated s)
     \<and> ksdl_getBinaryImageForHeader env (g_all_image_infos s) hdr sl zero_image \<noteq> None")
  case True
  then obtain filled where
    "ksdl_getBinaryImageForHeader env (g_all_image_infos s) hdr sl zero_image = Some filled"
    by auto
  with True assms show ?thesis by (simp add: add_image_success_linked)
next
  case False
  then have "add_image env hdr sl s = s" by (intro add_image_fail) auto
  with assms show ?thesis by simp
qed

lemma add_image_frame:
  "g_all_image_infos (add_image env hdr sl s) = g_all_image_infos s"
  "is_image_list_initialized (add_image env hdr sl s) = is_image_list_initialized s"
  "registrations (add_image env hdr sl s) = registrations s"
  by (simp_all add: add_image_def Let_def atomic_exchange_tail_def atomic_store_next_def
        split: option.splits)

lemma remove_image_loop_None: "remove_image_loop vm None mem = Some mem"
  by (subst remove_image_loop.simps) simp

lemma remove_image_fail:
  "ksdl_getBinaryImageForHeader env (g_all_image_infos s) hdr sl zero_image = None
   \<Longrightarrow> remove_image env hdr sl s = Some s"
  by (simp add: remove_image_def)

lemma remove_image_success:
  assumes "linked s"
    and "ksdl_getBinaryImageForHeader env (g_all_image_infos s) hdr sl zero_image = Some e"
  shows "remove_image env hdr sl s =
           Some (s\<lparr>images := (\<lambda>q. if 1 \<le> q \<and> q \<le> allocated s
                                       \<and> vmAddress (images s q) = vmAddress e
                                    then (images s q)\<lparr>unloaded := True\<rparr> else images s q)\<rparr>)"
proof -
  note c = linked_chain [OF assms(1)]
  show ?thesis
  proof (cases "0 < allocated s")
    case True
    then have "1 \<le> allocated s" by simp
    from remove_image_loop_chain [OF c this] True assms(2) show ?thesis
      by (simp add: remove_image_def get_images_linked [OF c])
  next
    case False
    then have "(\<lambda>q. if 1 \<le> q \<and> q \<le> allocated s \<and> vmAddress (images s q) = vmAddress e
                     then (images s q)\<lparr>unloaded := True\<rparr> else images s q) = images s"
      by (auto simp: fun_eq_iff)
    with False assms(2) show ?thesis
      by (simp add: remove_image_def get_images_linked [OF c] remove_image_loop_None)
  qed
qed

lemma remove_image_linked:
  assumes "linked s"
  shows "\<exists>s'. remove_image env hdr sl s = Some s' \<and> linked s'
           \<and> allocated s' = allocated s
           \<and> g_all_image_infos s' = g_all_image_infos s
           \<and> is_image_list_initialized s' = is_image_list_initialized s
           \<and> registrations s' = registrations s
           \<and> (\<forall>p. next_img (images s' p) = next_img (images s p))"
proof (cases "ksdl_getBinaryImageForHeader env (g_all_image_infos s) hdr sl zero_image")
  case None
  with assms show ?thesis by (simp add: remove_image_fail)
next
  case (Some e)
  from assms show ?thesis
    unfolding remove_image_success [OF assms Some]
    by (simp add: linked_def chain_mem_def)
qed


lemma linked_init: "linked init_registry"
  by (simp add: linked_def init_registry_def chain_mem_def zero_image_def)

lemma fold_add_image_linked:
  "linked s \<Longrightarrow> linked (fold (\<lambda>(hdr, sl). add_image env hdr sl) xs s)"
  by (induction xs arbitrary: s) (auto simp: add_image_linked)

lemma fold_add_image_frame:
  "g_all_image_infos (fold (\<lambda>(hdr, sl). add_image env hdr sl) xs s) = g_all_image_infos s"
  "is_image_list_initialized (fold (\<lambda>(hdr, sl). add_image env hdr sl) xs s)
     = is_image_list_initialized s"
  "registrations (fold (\<lambda>(hdr, sl). add_image env hdr sl) xs s) = registrations s"
  by (induction xs arbitrary: s) (auto simp: add_image_frame)

lemma linked_set_infos:
  "linked s \<Longrightarrow> is_image_list_initialized s \<Longrightarrow> linked (s\<lparr>g_all_image_infos := x\<rparr>)"
  by (simp add: linked_def)

lemma register_dyld_images_linked:
  assumes "linked s" "is_image_list_initialized s"
  shows "linked (register_dyld_images env s)"
    and "is_image_list_initialized (register_dyld_images env s)"
    and "registrations (register_dyld_images env s) = registrations s"
proof -
  show "linked (register_dyld_images env s)"
    using assms
    by (auto simp: register_dyld_images_def Let_def add_image_linked linked_set_infos
             split: option.splits prod.splits)
  show "is_image_list_initialized (register_dyld_images env s)"
    using assms(2)
    by (auto simp: register_dyld_images_def Let_def add_image_frame
             split: option.splits prod.splits)
  show "registrations (register_dyld_images env s) = registrations s"
    by (auto simp: register_dyld_images_def Let_def add_image_frame
             split: option.splits prod.splits)
qed

lemma linked_set_registrations:
  "linked s \<Longrightarrow> linked (s\<lparr>registrations := x\<rparr>)"
  by (simp add: linked_def)

lemma register_for_changes_linked:
  assumes "linked s"
  shows "linked (register_for_changes env s)"
    and "is_image_list_initialized (register_for_changes env s) = is_image_list_initialized s"
    and "registrations (register_for_changes env s) = Suc (registrations s)"
  using assms
  by (simp_all add: register_for_changes_def fold_add_image_linked fold_add_image_frame
        linked_set_registrations)

lemma linked_set_initialized:
  "linked s \<Longrightarrow> linked (s\<lparr>is_image_list_initialized := True\<rparr>)"
  by (simp add: linked_def)

lemma initialize_already:
  "is_image_list_initialized s \<Longrightarrow> ksdl_binary_images_initialize env s = s"
  by (simp add: ksdl_binary_images_initialize_def compare_exchange_initialized_def)

lemma initialize_first:
  "\<not> is_image_list_initialized s \<Longrightarrow>
     ksdl_binary_images_initialize env s =
       register_for_changes env
         (register_dyld_images env (s\<lparr>is_image_list_initialized := True\<rparr>))"
  by (simp add: ksdl_binary_images_initialize_def compare_exchange_initialized_def)

lemma initialize_linked:
  assumes "linked s"
  shows "linked (ksdl_binary_images_initialize env s)"
    and "is_image_list_initialized (ksdl_binary_images_initialize env s)"
proof -
  show "linked (ksdl_binary_images_initialize env s)"
  proof (cases "is_image_list_initialized s")
    case True
    with assms show ?thesis by (simp add: initialize_already)
  next
    case False
    then show ?thesis
      using assms
      by (simp add: initialize_first register_for_changes_linked register_dyld_images_linked
            linked_set_initialized)
  qed
  show "is_image_list_initialized (ksdl_binary_images_initialize env s)"
  proof (cases "is_image_list_initialized s")
    case True
    then show ?thesis by (simp add: initialize_already)
  next
    case False
    then show ?thesis
      using assms
      by (simp add: initialize_first register_for_changes_linked register_dyld_images_linked
            linked_set_initialized)
  qed
qed

lemma do_call_linked:
  assumes "linked s"
  shows "\<exists>s'. do_call env c s = Some s' \<and> linked s'"
proof (cases c)
  case (Add hdr sl)
  with assms show ?thesis by (simp add: add_image_linked)
next
  case (Remove hdr sl)
  with remove_image_linked [OF assms, of env hdr sl] show ?thesis by auto
next
  case Initialize
  with assms show ?thesis by (simp add: initialize_linked)
qed

lemma do_calls_linked:
  assumes "linked s"
  shows "\<exists>s'. do_calls env cs s = Some s' \<and> linked s'"
  using assms
proof (induction cs arbitrary: s)
  case Nil
  then show ?case by simp
next
  case (Cons c cs)
  from do_call_linked [OF Cons.prems, of env c]
  obtain s1 where "do_call env c s = Some s1" "linked s1" by blast
  with Cons.IH [of s1] show ?case by simp
qed

lemma reachable_linked:
  "do_calls env cs init_registry = Some s \<Longrightarrow> linked s"
  using do_calls_linked [OF linked_init, of env cs] by auto


lemma evolves_refl: "evolves s s"
  by (simp add: evolves_def)

lemma evolves_trans:
  assumes "evolves s s1" "evolves s1 s2"
  shows "evolves s s2"
  unfolding evolves_def
proof (intro conjI allI impI)
  from assms show "allocated s \<le> allocated s2" by (simp add: evolves_def)
next
  fix p assume p: "p \<le> allocated s"
  with assms(1) have p1: "p \<le> allocated s1" by (simp add: evolves_def)
  from assms(1) p have a: "images s1 p = (images s p)\<lparr>unloaded := unloaded (images s1 p),
                                      next_img := next_img (images s1 p)\<rparr>"
    by (simp add: evolves_def)
  from assms(2) p1 have b: "images s2 p = (images s1 p)\<lparr>unloaded := unloaded (images s2 p),
                                      next_img := next_img (images s2 p)\<rparr>"
    by (simp add: evolves_def)
  show "images s2 p = (images s p)\<lparr>unloaded := unloaded (images s2 p),
                                      next_img := next_img (images s2 p)\<rparr>"
    by (subst b, subst a) simp
next
  fix p assume p: "p \<le> allocated s" and u: "unloaded (images s p)"
  with assms(1) have "p \<le> allocated s1" "unloaded (images s1 p)" by (simp_all add: evolves_def)
  with assms(2) show "unloaded (images s2 p)" by (simp add: evolves_def)
next
  fix p assume p: "p \<le> allocated s" and n: "next_img (images s p) \<noteq> None"
  with assms(1) have "p \<le> allocated s1" "next_img (images s1 p) = next_img (images s p)"
    by (simp_all add: evolves_def)
  with assms(2) n show "next_img (images s2 p) = next_img (images s p)"
    by (simp add: evolves_def)
next
  from assms show "g_all_image_infos s2 = g_all_image_infos s \<or> g_all_image_infos s = None"
    by (auto simp: evolves_def)
qed

lemma add_image_evolves:
  assumes "linked s"
  shows "evolves s (add_image env hdr sl s)"
proof (cases "calloc_ok env (allocated s)
     \<and> ksdl_getBinaryImageForHeader env (g_all_image_infos s) hdr sl zero_image \<noteq> None")
  case True
  then obtain filled where f:
    "ksdl_getBinaryImageForHeader env (g_all_image_infos s) hdr sl zero_image = Some filled"
    by auto
  from True have c: "calloc_ok env (allocated s)" by simp
  note a = add_image_success_linked [OF assms c f]
  from assms have n: "next_img (images s (allocated s)) = None"
    by (simp add: linked_def chain_mem_next)
  show ?thesis
    unfolding evolves_def a(1,2,3) using n by auto
next
  case False
  then have "add_image env hdr sl s = s" by (intro add_image_fail) auto
  then show ?thesis by (simp add: evolves_refl)
qed

lemma remove_image_evolves:
  assumes "linked s" "remove_image env hdr sl s = Some s'"
  shows "evolves s s'"
proof (cases "ksdl_getBinaryImageForHeader env (g_all_image_infos s) hdr sl zero_image")
  case None
  with assms(2) show ?thesis by (simp add: remove_image_fail evolves_refl)
next
  case (Some e)
  from assms(2) show ?thesis
    unfolding remove_image_success [OF assms(1) Some]
    by (auto simp: evolves_def)
qed

lemma fold_add_image_evolves:
  "linked s \<Longrightarrow> evolves s (fold (\<lambda>(hdr, sl). add_image env hdr sl) xs s)"
proof (induction xs arbitrary: s)
  case Nil
  then show ?case by (simp add: evolves_refl)
next
  case (Cons x xs)
  obtain hdr sl where x: "x = (hdr, sl)" by (cases x)
  from Cons.prems have 1: "evolves s (add_image env hdr sl s)" by (rule add_image_evolves)
  from Cons.prems have "linked (add_image env hdr sl s)" by (rule add_image_linked)
  from Cons.IH [OF this] have 2: "evolves (add_image env hdr sl s)
      (fold (\<lambda>(hdr, sl). add_image env hdr sl) xs (add_image env hdr sl s))" .
  from evolves_trans [OF 1 2] show ?case by (simp add: x)
qed

lemma evolves_set_initialized:
  "evolves s (s\<lparr>is_image_list_initialized := True\<rparr>)"
  by (simp add: evolves_def)

lemma evolves_set_registrations:
  "evolves s (s\<lparr>registrations := x\<rparr>)"
  by (simp add: evolves_def)

lemma evolves_set_infos:
  "g_all_image_infos s = None \<Longrightarrow> evolves s (s\<lparr>g_all_image_infos := x\<rparr>)"
  by (simp add: evolves_def)

lemma register_dyld_images_evolves:
  assumes "linked s" "is_image_list_initialized s" "g_all_image_infos s = None"
  shows "evolves s (register_dyld_images env s)"
proof (cases "task_info env")
  case None
  then show ?thesis by (simp add: register_dyld_images_def evolves_refl)
next
  case (Some ai)
  define s1 where "s1 = s\<lparr>g_all_image_infos := Some ai\<rparr>"
  define s2 where "s2 = add_image env (dyldImageLoadAddress ai)
                          (compute_slide (dyldImageLoadAddress ai)) s1"
  have l1: "linked s1" using assms by (simp add: s1_def linked_set_infos)
  have e1: "evolves s s1" using assms(3) by (simp add: s1_def evolves_set_infos)
  have e2: "evolves s1 s2" unfolding s2_def by (rule add_image_evolves [OF l1])
  have l2: "linked s2" unfolding s2_def by (rule add_image_linked [OF l1])
  have e12: "evolves s s2" by (rule evolves_trans [OF e1 e2])
  have "register_dyld_images env s = s2
      \<or> (\<exists>hdr. register_dyld_images env s = add_image env hdr (compute_slide hdr) s2)"
    using Some
    by (auto simp: register_dyld_images_def Let_def s1_def s2_def split: option.splits)
  then show ?thesis
  proof
    assume "register_dyld_images env s = s2"
    with e12 show ?thesis by simp
  next
    assume "\<exists>hdr. register_dyld_images env s = add_image env hdr (compute_slide hdr) s2"
    then obtain hdr where "register_dyld_images env s = add_image env hdr (compute_slide hdr) s2"
      by blast
    with evolves_trans [OF e12 add_image_evolves [OF l2]] show ?thesis by simp
  qed
qed

lemma register_for_changes_evolves:
  assumes "linked s"
  shows "evolves s (register_for_changes env s)"
proof -
  have "evolves s (s\<lparr>registrations := Suc (registrations s)\<rparr>)"
    by (rule evolves_set_registrations)
  moreover have "linked (s\<lparr>registrations := Suc (registrations s)\<rparr>)"
    using assms by (rule linked_set_registrations)
  ultimately show ?thesis
    unfolding register_for_changes_def
    by (blast intro: evolves_trans fold_add_image_evolves)
qed

lemma initialize_evolves:
  assumes "linked s"
  shows "evolves s (ksdl_binary_images_initialize env s)"
proof (cases "is_image_list_initialized s")
  case True
  then show ?thesis by (simp add: initialize_already evolves_refl)
next
  case False
  define s1 where "s1 = s\<lparr>is_image_list_initialized := True\<rparr>"
  have l1: "linked s1" unfolding s1_def using assms by (rule linked_set_initialized)
  have i1: "is_image_list_initialized s1" by (simp add: s1_def)
  have n1: "g_all_image_infos s1 = None" using assms False by (simp add: s1_def linked_def)
  have e1: "evolves s s1" unfolding s1_def by (rule evolves_set_initialized)
  have e2: "evolves s1 (register_dyld_images env s1)"
    by (rule register_dyld_images_evolves [OF l1 i1 n1])
  have l2: "linked (register_dyld_images env s1)"
    by (rule register_dyld_images_linked(1) [OF l1 i1])
  have e3: "evolves (register_dyld_images env s1)
              (register_for_changes env (register_dyld_images env s1))"
    by (rule register_for_changes_evolves [OF l2])
  from evolves_trans [OF e1 evolves_trans [OF e2 e3]] False show ?thesis
    by (simp add: initialize_first s1_def)
qed

lemma do_call_evolves:
  assumes "linked s" "do_call env c s = Some s'"
  shows "evolves s s'"
proof (cases c)
  case (Add hdr sl)
  with assms show ?thesis by (auto simp: add_image_evolves)
next
  case (Remove hdr sl)
  with assms show ?thesis by (auto simp: remove_image_evolves)
next
  case Initialize
  with assms show ?thesis by (auto simp: initialize_evolves)
qed

lemma do_calls_evolves:
  assumes "linked s" "do_calls env cs s = Some s'"
  shows "evolves s s' \<and> linked s'"
  using assms
proof (induction cs arbitrary: s)
  case Nil
  then show ?case by (simp add: evolves_refl)
next
  case (Cons c cs)
  from do_call_linked [OF Cons.prems(1), of env c]
  obtain s1 where s1: "do_call env c s = Some s1" "linked s1" by blast
  with Cons.prems(2) have r: "do_calls env cs s1 = Some s'" by simp
  from Cons.IH [OF s1(2) r] have "evolves s1 s'" "linked s'" by simp_all
  moreover from do_call_evolves [OF Cons.prems(1) s1(1)] have "evolves s s1" .
  ultimately show ?case by (blast intro: evolves_trans)
qed

lemma contains_address_iff:
  "contains_address img a \<longleftrightarrow>
     \<not> unloaded img \<and> ptr_addr (header img) \<le> a
       \<and> a < ptr_addr (header img) + size_img img"
  by (simp add: contains_address_def Let_def)

lemma contains_address_range:
  assumes "unat (ptr_addr (header img)) + unat (size_img img) < 2 ^ 64"
  shows "contains_address img a \<longleftrightarrow>
     \<not> unloaded img \<and> unat (ptr_addr (header img)) \<le> unat a
       \<and> unat a < unat (ptr_addr (header img)) + unat (size_img img)"
proof -
  have "unat (ptr_addr (header img) + size_img img)
          = unat (ptr_addr (header img)) + unat (size_img img)"
    using assms by (simp add: unat_add_lem [THEN iffD1])
  then show ?thesis
    by (simp add: contains_address_iff word_le_nat_alt word_less_nat_alt)
qed

section \<open>The example registry\<close>

lemma ex_state_reached: "do_calls ex_env ex_calls init_registry = Some ex_state"
  by (simp add: ex_calls_def ex_state_def)

lemma ex_remove: "remove_image ex_env ex_hdr ex_slide ex_state = Some ex_removed"
proof -
  have "linked ex_state" using ex_state_reached by (rule reachable_linked)
  from remove_image_linked [OF this, of ex_env ex_hdr ex_slide] show ?thesis
    by (auto simp: ex_removed_def)
qed

lemma ex_removed_reached:
  "do_calls ex_env (ex_calls @ [Remove ex_hdr ex_slide]) init_registry = Some ex_removed"
  by (simp add: ex_calls_def ex_state_def [symmetric] ex_remove)

lemma ex_traverse: "traverse ex_state = Some [1, 2]"
  by code_simp

lemma ex_traverse_removed: "traverse ex_removed = Some [1, 2]"
  by code_simp

lemma ex_parse_ok:
  "ksdl_getBinaryImageForHeader ex_env None ex_hdr sl zero_image \<noteq> None"
  "ksdl_getBinaryImageForHeader ex_env None ex_hdr2 sl zero_image \<noteq> None"
  using ex_path ex_first_cmd ex_path2 ex_first_cmd2 by (simp_all add: parse_None_iff)

section \<open>Concurrent insertions and traversals: properties\<close>

text \<open>
  A writer that runs alone, on a call that succeeds, takes the registry to the state that
  \<^verbatim>\<open>add_image\<close> as one call takes it to.
\<close>

lemma writer_alone:
  assumes "calloc_ok env (allocated s)"
    and "ksdl_getBinaryImageForHeader env (g_all_image_infos s) hdr sl zero_image = Some filled"
  shows "run_schedule env [0, 0, 0, 0, 0] (s, [W_start hdr sl], pub)
           = (add_image env hdr sl s, [Done], pub @ [Suc (allocated s)])"
  using assms
  by (simp add: run_schedule_def add_image_def Let_def atomic_exchange_tail_def
        atomic_store_next_def)

lemma sum_list_map_update:
  fixes f :: "'a \<Rightarrow> nat"
  shows "i < length ts \<Longrightarrow> sum_list (map f (ts[i := t])) + f (ts ! i) = sum_list (map f ts) + f t"
proof (induction ts arbitrary: i)
  case Nil
  then show ?case by simp
next
  case (Cons x ts)
  then show ?case by (cases i) auto
qed

lemma in_set_update_other:
  assumes "x \<in> set ts" "x \<noteq> ts ! i"
  shows "x \<in> set (ts[i := y])"
proof -
  from assms(1) obtain j where j: "j < length ts" "ts ! j = x"
    by (auto simp: in_set_conv_nth)
  with assms(2) have "j \<noteq> i" by auto
  with j have "(ts[i := y]) ! j = x" "j < length (ts[i := y])" by simp_all
  then show ?thesis by (metis nth_mem)
qed

lemma sum_unpublished_le: "sum_list (map unpublished ts) \<le> length ts"
proof (induction ts)
  case Nil
  then show ?case by simp
next
  case (Cons t ts)
  have "unpublished t \<le> 1" by (cases t) simp_all
  with Cons show ?case by simp
qed

lemma parse_slide:
  "ksdl_getBinaryImageForHeader env infos hdr sl buf = Some d \<Longrightarrow> slide d = sl"
  by (erule parse_SomeD) (simp add: fill_buffer_def)

lemma parse_fully_initialized:
  assumes "ksdl_getBinaryImageForHeader env infos hdr sl zero_image = Some d"
  shows "fully_initialized env infos d"
  using assms parse_header [OF assms] parse_slide [OF assms]
  by (simp add: fully_initialized_def)

lemma fully_initialized_next_upd:
  "fully_initialized env infos (img\<lparr>next_img := x\<rparr>) = fully_initialized env infos img"
proof -
  have "(img\<lparr>next_img := x\<rparr> = d\<lparr>next_img := x\<rparr>) = (img = d\<lparr>next_img := next_img img\<rparr>)" for d
  proof
    assume "img\<lparr>next_img := x\<rparr> = d\<lparr>next_img := x\<rparr>"
    then have "(img\<lparr>next_img := x\<rparr>)\<lparr>next_img := next_img img\<rparr>
                 = (d\<lparr>next_img := x\<rparr>)\<lparr>next_img := next_img img\<rparr>"
      by (rule arg_cong)
    then show "img = d\<lparr>next_img := next_img img\<rparr>" by simp
  next
    assume "img = d\<lparr>next_img := next_img img\<rparr>"
    then have "img\<lparr>next_img := x\<rparr> = (d\<lparr>next_img := next_img img\<rparr>)\<lparr>next_img := x\<rparr>"
      by (rule arg_cong)
    then show "img\<lparr>next_img := x\<rparr> = d\<lparr>next_img := x\<rparr>" by simp
  qed
  then show ?thesis
    by (simp add: fully_initialized_def split: option.splits)
qed

lemma zero_image_not_initialized: "\<not> fully_initialized env infos zero_image"
proof
  assume "fully_initialized env infos zero_image"
  then obtain d where
    "ksdl_getBinaryImageForHeader env infos (header zero_image) (slide zero_image) zero_image
       = Some d"
    by (auto simp: fully_initialized_def split: option.splits)
  then have "header zero_image \<noteq> None" by (auto elim: parse_SomeD)
  then show False by (simp add: zero_image_def)
qed

lemma thread_ok_frame:
  assumes "thread_ok env infos s pub t" "allocated s \<le> allocated s'"
    and "\<And>p. owned t = Some p \<Longrightarrow> images s' p = images s p"
  shows "thread_ok env infos s' pub t"
  using assms by (cases t) auto

lemma thread_ok_publish:
  assumes "thread_ok env infos s pub t" "owned t \<noteq> Some p"
  shows "thread_ok env infos s (pub @ [p]) t"
proof (cases t)
  case (W_exchanged a q hdr)
  with assms(1) obtain k where "k < length pub" "a = (0 # pub) ! k" "q = pub ! k" by auto
  then have "k < length (pub @ [p]) \<and> a = (0 # pub @ [p]) ! k \<and> q = (pub @ [p]) ! k"
    by (cases k) (simp_all add: nth_append)
  with W_exchanged show ?thesis by auto
next
  case (R_at cur seen)
  with assms(1) show ?thesis by (auto simp: nth_append)
qed (use assms in auto)


lemma config_okI:
  assumes "g_all_image_infos s = infos"
    and "distinct pub" "0 \<notin> set pub" "\<And>p. p \<in> set pub \<Longrightarrow> p \<le> allocated s"
    and "g_images_tail s = last (0 # pub)"
    and "next_img (images s (last (0 # pub))) = None"
    and "\<And>k. k < length pub \<Longrightarrow>
              next_img (images s ((0 # pub) ! k)) = Some (pub ! k)
              \<or> (next_img (images s ((0 # pub) ! k)) = None
                  \<and> (\<exists>hdr. W_exchanged ((0 # pub) ! k) (pub ! k) hdr \<in> set ts))"
    and "\<And>p. p \<in> set pub \<Longrightarrow> fully_initialized env infos (images s p)"
    and "\<And>i. i < length ts \<Longrightarrow> thread_ok env infos s pub (ts ! i)"
    and "\<And>i j. i < length ts \<Longrightarrow> j < length ts \<Longrightarrow> i \<noteq> j \<Longrightarrow> owned (ts ! i) \<noteq> None \<Longrightarrow>
              owned (ts ! i) \<noteq> owned (ts ! j)"
    and "length pub + sum_list (map unpublished ts) \<le> length ts"
  shows "config_ok env infos (s, ts, pub)"
  unfolding config_ok_def using assms by (simp del: thread_ok.simps)

lemma config_okD:
  assumes "config_ok env infos (s, ts, pub)"
  shows "g_all_image_infos s = infos"
    and "distinct pub" "0 \<notin> set pub" "\<And>p. p \<in> set pub \<Longrightarrow> p \<le> allocated s"
    and "g_images_tail s = last (0 # pub)"
    and "next_img (images s (last (0 # pub))) = None"
    and "\<And>k. k < length pub \<Longrightarrow>
              next_img (images s ((0 # pub) ! k)) = Some (pub ! k)
              \<or> (next_img (images s ((0 # pub) ! k)) = None
                  \<and> (\<exists>hdr. W_exchanged ((0 # pub) ! k) (pub ! k) hdr \<in> set ts))"
    and "\<And>p. p \<in> set pub \<Longrightarrow> fully_initialized env infos (images s p)"
    and "\<And>i. i < length ts \<Longrightarrow> thread_ok env infos s pub (ts ! i)"
    and "\<And>i j. i < length ts \<Longrightarrow> j < length ts \<Longrightarrow> i \<noteq> j \<Longrightarrow> owned (ts ! i) \<noteq> None \<Longrightarrow>
              owned (ts ! i) \<noteq> owned (ts ! j)"
    and "length pub + sum_list (map unpublished ts) \<le> length ts"
  using assms unfolding config_ok_def by (simp_all del: thread_ok.simps)

lemma nodes_nth_in: "k < length pub \<Longrightarrow> (0 # pub) ! k \<in> set (0 # pub)"
  by (metis length_Cons less_Suc_eq nth_mem)

lemma nodes_last: "(0 # pub) ! length pub = last (0 # pub)"
  by (metis last_conv_nth length_Cons diff_Suc_1 list.distinct(1))


text \<open>A step that publishes nothing and writes no link of a published descriptor.\<close>

lemma config_ok_local_step:
  assumes ok: "config_ok env infos (s, ts, pub)" and i: "i < length ts"
    and infos: "g_all_image_infos s' = g_all_image_infos s"
    and al: "allocated s \<le> allocated s'"
    and tail: "g_images_tail s' = g_images_tail s"
    and pubmem: "\<And>p. p \<in> set (0 # pub) \<Longrightarrow> images s' p = images s p"
    and others: "\<And>j p. j < length ts \<Longrightarrow> j \<noteq> i \<Longrightarrow> owned (ts ! j) = Some p \<Longrightarrow>
                   images s' p = images s p"
    and not_exch: "\<And>a p hdr. ts ! i \<noteq> W_exchanged a p hdr"
    and ti: "thread_ok env infos s' pub t'"
    and own: "\<And>j. j < length ts \<Longrightarrow> j \<noteq> i \<Longrightarrow> owned t' \<noteq> None \<Longrightarrow> owned t' \<noteq> owned (ts ! j)"
    and unp: "unpublished t' \<le> unpublished (ts ! i)"
  shows "config_ok env infos (s', ts[i := t'], pub)"
proof (rule config_okI)
  note d = config_okD [OF ok]
  show "g_all_image_infos s' = infos" using infos d(1) by simp
  show "distinct pub" by (rule d(2))
  show "0 \<notin> set pub" by (rule d(3))
  show "p \<le> allocated s'" if "p \<in> set pub" for p
    using d(4) [OF that] al by simp
  show "g_images_tail s' = last (0 # pub)" using tail d(5) by simp
  have lastmem: "last (0 # pub) \<in> set (0 # pub)" by (rule last_in_set) simp
  show "next_img (images s' (last (0 # pub))) = None"
    using pubmem [OF lastmem] d(6) by simp
  show "next_img (images s' ((0 # pub) ! k)) = Some (pub ! k)
              \<or> (next_img (images s' ((0 # pub) ! k)) = None
                  \<and> (\<exists>hdr. W_exchanged ((0 # pub) ! k) (pub ! k) hdr \<in> set (ts[i := t'])))"
    if k: "k < length pub" for k
  proof -
    have m: "images s' ((0 # pub) ! k) = images s ((0 # pub) ! k)"
      by (rule pubmem [OF nodes_nth_in [OF k]])
    from d(7) [OF k] show ?thesis
    proof
      assume "next_img (images s ((0 # pub) ! k)) = Some (pub ! k)"
      then show ?thesis by (simp add: m)
    next
      assume r: "next_img (images s ((0 # pub) ! k)) = None
                  \<and> (\<exists>hdr. W_exchanged ((0 # pub) ! k) (pub ! k) hdr \<in> set ts)"
      then obtain hdr where "W_exchanged ((0 # pub) ! k) (pub ! k) hdr \<in> set ts" by blast
      moreover have "W_exchanged ((0 # pub) ! k) (pub ! k) hdr \<noteq> ts ! i"
        using not_exch [of "(0 # pub) ! k" "pub ! k" hdr] by simp
      ultimately have "W_exchanged ((0 # pub) ! k) (pub ! k) hdr \<in> set (ts[i := t'])"
        by (rule in_set_update_other)
      with r show ?thesis by (auto simp: m)
    qed
  qed
  show "fully_initialized env infos (images s' p)" if "p \<in> set pub" for p
    using d(8) [OF that] pubmem [of p] that by simp
  show "thread_ok env infos s' pub (ts[i := t'] ! j)" if "j < length (ts[i := t'])" for j
  proof (cases "j = i")
    case True
    with i ti show ?thesis by simp
  next
    case False
    from that have j: "j < length ts" by simp
    have "thread_ok env infos s' pub (ts ! j)"
      by (rule thread_ok_frame [OF d(9) [OF j] al]) (rule others [OF j False])
    with False show ?thesis by simp
  qed
  show "owned (ts[i := t'] ! a) \<noteq> owned (ts[i := t'] ! b)"
    if "a < length (ts[i := t'])" "b < length (ts[i := t'])" "a \<noteq> b"
      "owned (ts[i := t'] ! a) \<noteq> None" for a b
  proof -
    from that have a: "a < length ts" and b: "b < length ts" by simp_all
    show ?thesis
    proof (cases "a = i")
      case True
      with that(3) have "b \<noteq> i" by simp
      with True i that(4) own [OF b] show ?thesis by simp
    next
      case na: False
      show ?thesis
      proof (cases "b = i")
        case True
        show ?thesis
        proof (cases "owned t' = None")
          case True
          with \<open>b = i\<close> na i that(4) show ?thesis by simp
        next
          case False
          from own [OF a na False] \<open>b = i\<close> na i show ?thesis by auto
        qed
      next
        case False
        with na a b that d(10) [of a b] show ?thesis by simp
      qed
    qed
  qed
  show "length pub + sum_list (map unpublished (ts[i := t'])) \<le> length (ts[i := t'])"
    using sum_list_map_update [OF i, of unpublished t'] unp d(11) by simp
qed


lemma owned_allocated:
  assumes "thread_ok env infos s pub t" "owned t = Some p"
  shows "0 < p" "p \<le> allocated s" "p \<notin> set pub"
  using assms by (cases t; simp)+

lemma step_W_start:
  assumes ok: "config_ok env infos (s, ts, pub)" and i: "i < length ts"
    and t: "ts ! i = W_start hdr sl"
    and st: "thread_step env (ts ! i) (s, pub) = Some (t', s', pub')"
  shows "config_ok env infos (s', ts[i := t'], pub')"
proof (cases "calloc_ok env (allocated s)")
  case False
  with st t have e: "t' = Done" "s' = s" "pub' = pub" by simp_all
  show ?thesis
    unfolding e
    by (rule config_ok_local_step [OF ok i]) (simp_all add: t)
next
  case True
  define p where "p = Suc (allocated s)"
  from True st t have e: "t' = W_allocated p hdr sl"
    "s' = s\<lparr>images := (images s)(p := zero_image), allocated := p\<rparr>" "pub' = pub"
    by (simp_all add: p_def Let_def)
  note d = config_okD [OF ok]
  have fresh: "q \<noteq> p" if "q \<in> set (0 # pub)" for q
    using that d(4) [of q] by (auto simp: p_def)
  show ?thesis
    unfolding e
  proof (rule config_ok_local_step [OF ok i])
    show "images (s\<lparr>images := (images s)(p := zero_image), allocated := p\<rparr>) q = images s q"
      if "q \<in> set (0 # pub)" for q
      using fresh [OF that] by simp
    show "images (s\<lparr>images := (images s)(p := zero_image), allocated := p\<rparr>) q = images s q"
      if "j < length ts" "j \<noteq> i" "owned (ts ! j) = Some q" for j q
      using owned_allocated(2) [OF d(9) [OF that(1)] that(3)] by (simp add: p_def)
    show "thread_ok env infos (s\<lparr>images := (images s)(p := zero_image), allocated := p\<rparr>) pub
            (W_allocated p hdr sl)"
      using fresh [of p] by (auto simp: p_def)
    show "owned (W_allocated p hdr sl) \<noteq> owned (ts ! j)" if "j < length ts" "j \<noteq> i" for j
    proof
      assume "owned (W_allocated p hdr sl) = owned (ts ! j)"
      then have "owned (ts ! j) = Some p" by simp
      from owned_allocated(2) [OF d(9) [OF that(1)] this] show False by (simp add: p_def)
    qed
  qed (simp_all add: t p_def)
qed

lemma step_W_allocated:
  assumes ok: "config_ok env infos (s, ts, pub)" and i: "i < length ts"
    and t: "ts ! i = W_allocated p hdr sl"
    and st: "thread_step env (ts ! i) (s, pub) = Some (t', s', pub')"
  shows "config_ok env infos (s', ts[i := t'], pub')"
proof -
  note d = config_okD [OF ok]
  from d(9) [OF i] t have p: "0 < p" "p \<le> allocated s" "p \<notin> set pub"
    and z: "images s p = zero_image" by simp_all
  show ?thesis
  proof (cases "ksdl_getBinaryImageForHeader env (g_all_image_infos s) hdr sl zero_image")
    case None
    with st t z have e: "t' = Done" "s' = s" "pub' = pub" by simp_all
    show ?thesis
      unfolding e
      by (rule config_ok_local_step [OF ok i]) (simp_all add: t)
  next
    case (Some filled)
    with st t z have e: "t' = W_parsed p hdr" "s' = s\<lparr>images := (images s)(p := filled)\<rparr>"
      "pub' = pub"
      by simp_all
    from Some d(1) have f: "fully_initialized env infos filled"
      by (auto intro: parse_fully_initialized)
    from Some have n: "next_img filled = None" by (rule parse_next_None)
    show ?thesis
      unfolding e
    proof (rule config_ok_local_step [OF ok i])
      show "images (s\<lparr>images := (images s)(p := filled)\<rparr>) q = images s q"
        if "q \<in> set (0 # pub)" for q
        using that p by auto
      show "images (s\<lparr>images := (images s)(p := filled)\<rparr>) q = images s q"
        if "j < length ts" "j \<noteq> i" "owned (ts ! j) = Some q" for j q
      proof -
        have "owned (ts ! i) \<noteq> owned (ts ! j)"
          using d(10) [OF i that(1)] that(2) t by simp
        with that(3) t have "q \<noteq> p" by auto
        then show ?thesis by simp
      qed
      show "thread_ok env infos (s\<lparr>images := (images s)(p := filled)\<rparr>) pub (W_parsed p hdr)"
        using p f n by simp
      show "owned (W_parsed p hdr) \<noteq> owned (ts ! j)" if "j < length ts" "j \<noteq> i" for j
        using d(10) [OF i that(1)] that(2) t by simp
    qed (simp_all add: t)
  qed
qed

lemma step_W_linked:
  assumes ok: "config_ok env infos (s, ts, pub)" and i: "i < length ts"
    and t: "ts ! i = W_linked p hdr"
    and st: "thread_step env (ts ! i) (s, pub) = Some (t', s', pub')"
  shows "config_ok env infos (s', ts[i := t'], pub')"
proof -
  from st t have e: "t' = Done" "pub' = pub"
    "s' = (if ptr_addr hdr = dso_handle env then s\<lparr>g_self_image := Some p\<rparr> else s)"
    by simp_all
  show ?thesis
    unfolding e
    by (rule config_ok_local_step [OF ok i]) (simp_all add: t)
qed

lemma step_R_start:
  assumes ok: "config_ok env infos (s, ts, pub)" and i: "i < length ts"
    and t: "ts ! i = R_start"
    and st: "thread_step env (ts ! i) (s, pub) = Some (t', s', pub')"
  shows "config_ok env infos (s', ts[i := t'], pub')"
proof -
  from st t have e: "t' = R_at (next_img (images s 0)) []" "s' = s" "pub' = pub"
    by (auto simp: ksdl_get_images_def)
  note d = config_okD [OF ok]
  have cur: "0 < length pub \<and> pub ! 0 = q" if "next_img (images s 0) = Some q" for q
  proof (cases pub)
    case Nil
    with d(6) that show ?thesis by simp
  next
    case (Cons x xs)
    then have "0 < length pub" by simp
    from d(7) [OF this] that show ?thesis by (simp add: Cons)
  qed
  show ?thesis
    unfolding e
    by (rule config_ok_local_step [OF ok i]) (use cur in \<open>simp_all add: t\<close>)
qed

lemma step_R_at:
  assumes ok: "config_ok env infos (s, ts, pub)" and i: "i < length ts"
    and t: "ts ! i = R_at (Some q) seen"
    and st: "thread_step env (ts ! i) (s, pub) = Some (t', s', pub')"
  shows "config_ok env infos (s', ts[i := t'], pub')"
proof -
  from st t have e: "t' = R_at (next_img (images s q)) (seen @ [(q, images s q)])"
    "s' = s" "pub' = pub"
    by auto
  note d = config_okD [OF ok]
  define k where "k = length seen"
  from d(9) [OF i] t have r: "map fst seen = take k pub" "k < length pub" "pub ! k = q"
    and fs: "\<forall>x \<in> set seen. fully_initialized env infos (snd x)"
    by (simp_all add: k_def)
  have qm: "q \<in> set pub" using r(2,3) by (metis nth_mem)
  have q': "(0 # pub) ! Suc k = q" using r(3) by simp
  have 1: "map fst (seen @ [(q, images s q)]) = take (Suc k) pub"
    using r by (simp add: take_Suc_conv_app_nth)
  have 2: "Suc k < length pub \<and> pub ! Suc k = x" if "next_img (images s q) = Some x" for x
  proof (cases "Suc k < length pub")
    case True
    from d(7) [OF True] that True show ?thesis by (simp add: r(3))
  next
    case False
    with r(2) have "Suc k = length pub" by simp
    then have "q = last (0 # pub)" using q' nodes_last [of pub] by simp
    with d(6) that show ?thesis by simp
  qed
  have 3: "fully_initialized env infos (images s q)" by (rule d(8) [OF qm])
  have tok: "thread_ok env infos s pub (R_at (next_img (images s q)) (seen @ [(q, images s q)]))"
    using 1 2 3 fs r(2) by (auto simp: k_def)
  show ?thesis
    unfolding e
    by (rule config_ok_local_step [OF ok i _ _ _ _ _ _ tok]) (simp_all add: t)
qed

lemma step_W_parsed:
  assumes ok: "config_ok env infos (s, ts, pub)" and i: "i < length ts"
    and t: "ts ! i = W_parsed p hdr"
    and st: "thread_step env (ts ! i) (s, pub) = Some (t', s', pub')"
  shows "config_ok env infos (s', ts[i := t'], pub')"
proof -
  note d = config_okD [OF ok]
  define a where "a = last (0 # pub)"
  from st t d(5) have e: "t' = W_exchanged a p hdr" "s' = s\<lparr>g_images_tail := p\<rparr>"
    "pub' = pub @ [p]"
    by (auto simp: atomic_exchange_tail_def a_def)
  from d(9) [OF i] t have p: "0 < p" "p \<le> allocated s" "p \<notin> set pub"
    and f: "fully_initialized env infos (images s p)" and n: "next_img (images s p) = None"
    by simp_all
  have nth_old: "(0 # pub @ [p]) ! k = (0 # pub) ! k" if "k \<le> length pub" for k
    using that by (cases k) (simp_all add: nth_append)
  show ?thesis
    unfolding e
  proof (rule config_okI)
    show "g_all_image_infos (s\<lparr>g_images_tail := p\<rparr>) = infos" using d(1) by simp
    show "distinct (pub @ [p])" using d(2) p(3) by simp
    show "0 \<notin> set (pub @ [p])" using d(3) p(1) by simp
    show "q \<le> allocated (s\<lparr>g_images_tail := p\<rparr>)" if "q \<in> set (pub @ [p])" for q
      using that d(4) [of q] p(2) by auto
    show "g_images_tail (s\<lparr>g_images_tail := p\<rparr>) = last (0 # pub @ [p])" by simp
    show "next_img (images (s\<lparr>g_images_tail := p\<rparr>) (last (0 # pub @ [p]))) = None"
      using n by simp
    show "next_img (images (s\<lparr>g_images_tail := p\<rparr>) ((0 # pub @ [p]) ! k))
              = Some ((pub @ [p]) ! k)
          \<or> (next_img (images (s\<lparr>g_images_tail := p\<rparr>) ((0 # pub @ [p]) ! k)) = None
              \<and> (\<exists>hdr'. W_exchanged ((0 # pub @ [p]) ! k) ((pub @ [p]) ! k) hdr'
                     \<in> set (ts[i := W_exchanged a p hdr])))"
      if "k < length (pub @ [p])" for k
    proof (cases "k < length pub")
      case True
      then have o: "(0 # pub @ [p]) ! k = (0 # pub) ! k" "(pub @ [p]) ! k = pub ! k"
        by (simp_all add: nth_old nth_append)
      from d(7) [OF True] show ?thesis
      proof
        assume "next_img (images s ((0 # pub) ! k)) = Some (pub ! k)"
        then show ?thesis by (simp add: o)
      next
        assume r: "next_img (images s ((0 # pub) ! k)) = None
                  \<and> (\<exists>hdr. W_exchanged ((0 # pub) ! k) (pub ! k) hdr \<in> set ts)"
        then obtain hdr' where "W_exchanged ((0 # pub) ! k) (pub ! k) hdr' \<in> set ts" by blast
        moreover have "W_exchanged ((0 # pub) ! k) (pub ! k) hdr' \<noteq> ts ! i" by (simp add: t)
        ultimately have "W_exchanged ((0 # pub) ! k) (pub ! k) hdr'
                           \<in> set (ts[i := W_exchanged a p hdr])"
          by (rule in_set_update_other)
        with r show ?thesis by (auto simp: o)
      qed
    next
      case False
      with that have k: "k = length pub" by simp
      have o: "(0 # pub @ [p]) ! k = a" "(pub @ [p]) ! k = p"
        using nth_old [of k] nodes_last [of pub] by (simp_all add: k a_def)
      have "W_exchanged a p hdr \<in> set (ts[i := W_exchanged a p hdr])"
        using i by (rule set_update_memI)
      with d(6) show ?thesis by (auto simp: o a_def)
    qed
    show "fully_initialized env infos (images (s\<lparr>g_images_tail := p\<rparr>) q)"
      if "q \<in> set (pub @ [p])" for q
      using that d(8) [of q] f by auto
    show "thread_ok env infos (s\<lparr>g_images_tail := p\<rparr>) (pub @ [p])
            (ts[i := W_exchanged a p hdr] ! j)"
      if "j < length (ts[i := W_exchanged a p hdr])" for j
    proof (cases "j = i")
      case True
      have w: "length pub < length (pub @ [p]) \<and> a = (0 # pub @ [p]) ! length pub
              \<and> p = (pub @ [p]) ! length pub"
        using nth_old [of "length pub"] nodes_last [of pub] by (simp add: a_def)
      have "thread_ok env infos (s\<lparr>g_images_tail := p\<rparr>) (pub @ [p]) (W_exchanged a p hdr)"
        by (simp only: thread_ok.simps) (rule exI [of _ "length pub"], rule w)
      with True i show ?thesis by simp
    next
      case False
      from that have j: "j < length ts" by simp
      have "owned (ts ! i) \<noteq> owned (ts ! j)"
        using d(10) [OF i j] False t by simp
      then have np: "owned (ts ! j) \<noteq> Some p" by (simp add: t)
      have "thread_ok env infos (s\<lparr>g_images_tail := p\<rparr>) pub (ts ! j)"
        by (rule thread_ok_frame [OF d(9) [OF j]]) simp_all
      from thread_ok_publish [OF this np] False show ?thesis by simp
    qed
    show "owned (ts[i := W_exchanged a p hdr] ! x) \<noteq> owned (ts[i := W_exchanged a p hdr] ! y)"
      if "x < length (ts[i := W_exchanged a p hdr])" "y < length (ts[i := W_exchanged a p hdr])"
        "x \<noteq> y" "owned (ts[i := W_exchanged a p hdr] ! x) \<noteq> None" for x y
    proof -
      from that have x: "x < length ts" and y: "y < length ts" by simp_all
      from that(4) i have xi: "x \<noteq> i" by auto
      show ?thesis
      proof (cases "y = i")
        case True
        with xi i that(4) show ?thesis by simp
      next
        case False
        with xi x y that d(10) [of x y] show ?thesis by simp
      qed
    qed
    show "length (pub @ [p]) + sum_list (map unpublished (ts[i := W_exchanged a p hdr]))
            \<le> length (ts[i := W_exchanged a p hdr])"
      using sum_list_map_update [OF i, of unpublished "W_exchanged a p hdr"] d(11)
      by (simp add: t)
  qed
qed

lemma step_W_exchanged:
  assumes ok: "config_ok env infos (s, ts, pub)" and i: "i < length ts"
    and t: "ts ! i = W_exchanged a p hdr"
    and st: "thread_step env (ts ! i) (s, pub) = Some (t', s', pub')"
  shows "config_ok env infos (s', ts[i := t'], pub')"
proof -
  note d = config_okD [OF ok]
  from st t have e: "t' = W_linked p hdr"
    "s' = s\<lparr>images := (images s)(a := (images s a)\<lparr>next_img := Some p\<rparr>)\<rparr>" "pub' = pub"
    by (auto simp: atomic_store_next_def)
  from d(9) [OF i] t obtain k where k: "k < length pub" "a = (0 # pub) ! k" "p = pub ! k"
    by auto
  have dn: "distinct (0 # pub)" using d(2,3) by simp
  have am: "a \<in> set (0 # pub)" unfolding k(2) by (rule nodes_nth_in [OF k(1)])
  have idx: "k' = k" if "k' \<le> length pub" "(0 # pub) ! k' = a" for k'
    using that k(1,2) dn by (simp add: nth_eq_iff_index_eq)
  have a_not_last: "a \<noteq> last (0 # pub)"
  proof
    assume "a = last (0 # pub)"
    then have "(0 # pub) ! length pub = a" by (simp add: nodes_last)
    from idx [OF _ this] k(1) show False by simp
  qed
  let ?s' = "s\<lparr>images := (images s)(a := (images s a)\<lparr>next_img := Some p\<rparr>)\<rparr>"
  show ?thesis
    unfolding e
  proof (rule config_okI)
    show "g_all_image_infos ?s' = infos" using d(1) by simp
    show "distinct pub" by (rule d(2))
    show "0 \<notin> set pub" by (rule d(3))
    show "q \<le> allocated ?s'" if "q \<in> set pub" for q using d(4) [OF that] by simp
    show "g_images_tail ?s' = last (0 # pub)" using d(5) by simp
    show "next_img (images ?s' (last (0 # pub))) = None"
      using d(6) a_not_last by simp
    show "next_img (images ?s' ((0 # pub) ! k')) = Some (pub ! k')
          \<or> (next_img (images ?s' ((0 # pub) ! k')) = None
              \<and> (\<exists>hdr'. W_exchanged ((0 # pub) ! k') (pub ! k') hdr'
                     \<in> set (ts[i := W_linked p hdr])))"
      if k': "k' < length pub" for k'
    proof (cases "(0 # pub) ! k' = a")
      case True
      with idx [of k'] k' have "k' = k" by simp
      with True k(3) show ?thesis by simp
    next
      case False
      then have m: "images ?s' ((0 # pub) ! k') = images s ((0 # pub) ! k')" by simp
      from d(7) [OF k'] show ?thesis
      proof
        assume "next_img (images s ((0 # pub) ! k')) = Some (pub ! k')"
        then show ?thesis by (simp only: m) simp
      next
        assume r: "next_img (images s ((0 # pub) ! k')) = None
                  \<and> (\<exists>hdr. W_exchanged ((0 # pub) ! k') (pub ! k') hdr \<in> set ts)"
        then obtain hdr' where "W_exchanged ((0 # pub) ! k') (pub ! k') hdr' \<in> set ts" by blast
        moreover have "W_exchanged ((0 # pub) ! k') (pub ! k') hdr' \<noteq> ts ! i"
          using False by (simp add: t)
        ultimately have "W_exchanged ((0 # pub) ! k') (pub ! k') hdr'
                           \<in> set (ts[i := W_linked p hdr])"
          by (rule in_set_update_other)
        with r show ?thesis by (simp only: m) blast
      qed
    qed
    show "fully_initialized env infos (images ?s' q)" if "q \<in> set pub" for q
      using d(8) [OF that] by (cases "q = a") (simp_all add: fully_initialized_next_upd)
    show "thread_ok env infos ?s' pub (ts[i := W_linked p hdr] ! j)"
      if "j < length (ts[i := W_linked p hdr])" for j
    proof (cases "j = i")
      case True
      with i show ?thesis by simp
    next
      case False
      from that have j: "j < length ts" by simp
      have "thread_ok env infos ?s' pub (ts ! j)"
      proof (rule thread_ok_frame [OF d(9) [OF j]])
        show "images ?s' q = images s q" if "owned (ts ! j) = Some q" for q
        proof -
          from owned_allocated [OF d(9) [OF j] that] am have "q \<noteq> a" by auto
          then show ?thesis by simp
        qed
      qed simp
      with False show ?thesis by simp
    qed
    show "owned (ts[i := W_linked p hdr] ! x) \<noteq> owned (ts[i := W_linked p hdr] ! y)"
      if "x < length (ts[i := W_linked p hdr])" "y < length (ts[i := W_linked p hdr])"
        "x \<noteq> y" "owned (ts[i := W_linked p hdr] ! x) \<noteq> None" for x y
    proof -
      from that have x: "x < length ts" and y: "y < length ts" by simp_all
      from that(4) i have xi: "x \<noteq> i" by auto
      show ?thesis
      proof (cases "y = i")
        case True
        with xi i that(4) show ?thesis by simp
      next
        case False
        with xi x y that d(10) [of x y] show ?thesis by simp
      qed
    qed
    show "length pub + sum_list (map unpublished (ts[i := W_linked p hdr]))
            \<le> length (ts[i := W_linked p hdr])"
      using sum_list_map_update [OF i, of unpublished "W_linked p hdr"] d(11)
      by (simp add: t)
  qed
qed

lemma config_ok_thread_step:
  assumes "config_ok env infos (s, ts, pub)" "i < length ts"
    and "thread_step env (ts ! i) (s, pub) = Some (t', s', pub')"
  shows "config_ok env infos (s', ts[i := t'], pub')"
proof (cases "ts ! i")
  case (W_start hdr sl)
  from step_W_start [OF assms(1,2) this assms(3)] show ?thesis .
next
  case (W_allocated p hdr sl)
  from step_W_allocated [OF assms(1,2) this assms(3)] show ?thesis .
next
  case (W_parsed p hdr)
  from step_W_parsed [OF assms(1,2) this assms(3)] show ?thesis .
next
  case (W_exchanged a p hdr)
  from step_W_exchanged [OF assms(1,2) this assms(3)] show ?thesis .
next
  case (W_linked p hdr)
  from step_W_linked [OF assms(1,2) this assms(3)] show ?thesis .
next
  case Done
  with assms(3) show ?thesis by simp
next
  case R_start
  from step_R_start [OF assms(1,2) this assms(3)] show ?thesis .
next
  case (R_at cur seen)
  show ?thesis
  proof (cases cur)
    case None
    with R_at assms(3) show ?thesis by simp
  next
    case (Some q)
    with R_at have "ts ! i = R_at (Some q) seen" by simp
    from step_R_at [OF assms(1,2) this assms(3)] show ?thesis .
  qed
qed

lemma config_ok_sched_step:
  assumes "config_ok env infos c"
  shows "config_ok env infos (sched_step env i c)"
proof -
  obtain s ts pub where c: "c = (s, ts, pub)" by (cases c)
  show ?thesis
  proof (cases "i < length ts")
    case False
    with assms c show ?thesis by simp
  next
    case True
    show ?thesis
    proof (cases "thread_step env (ts ! i) (s, pub)")
      case None
      with assms c True show ?thesis by simp
    next
      case (Some r)
      obtain t' s' pub' where r: "r = (t', s', pub')" by (cases r)
      from config_ok_thread_step [OF assms [unfolded c] True Some [unfolded r]]
      show ?thesis using True Some by (simp add: c r)
    qed
  qed
qed

lemma config_ok_run_schedule:
  "config_ok env infos c \<Longrightarrow> config_ok env infos (run_schedule env sched c)"
  unfolding run_schedule_def
  by (induction sched arbitrary: c) (simp_all add: config_ok_sched_step)

lemma at_start_cases: "at_start t \<Longrightarrow> (\<exists>hdr sl. t = W_start hdr sl) \<or> t = R_start"
  by (cases t) simp_all

lemma config_ok_initial:
  assumes "empty_registry s" "\<forall>t \<in> set ts. at_start t"
  shows "config_ok env (g_all_image_infos s) (s, ts, [])"
proof (rule config_okI)
  show "thread_ok env (g_all_image_infos s) s [] (ts ! i)" if "i < length ts" for i
  proof -
    from that assms(2) have "at_start (ts ! i)" by simp
    from at_start_cases [OF this] show ?thesis by auto
  qed
  show "owned (ts ! i) \<noteq> owned (ts ! j)"
    if "i < length ts" "owned (ts ! i) \<noteq> None" for i j
  proof -
    from that(1) assms(2) have "at_start (ts ! i)" by simp
    from at_start_cases [OF this] that(2) show ?thesis by auto
  qed
  show "length [] + sum_list (map unpublished ts) \<le> length ts"
    using sum_unpublished_le [of ts] by simp
qed (use assms(1) in \<open>simp_all add: empty_registry_def\<close>)

lemma traverse_from_None: "traverse_from mem None = Some []"
  by (subst traverse_from.simps) simp

lemma traverse_from_Some:
  "traverse_from mem (Some p) =
     Option.bind (traverse_from mem (next_img (mem p))) (\<lambda>rest. Some (p # rest))"
  by (subst traverse_from.simps) simp

lemma chain_traverse:
  assumes "\<And>i. i < k \<Longrightarrow> next_img (mem ((0 # pub) ! i)) = Some (pub ! i)"
    and "next_img (mem ((0 # pub) ! k)) = None" and "k \<le> length pub"
  shows "j \<le> k \<Longrightarrow>
           traverse_from mem (next_img (mem ((0 # pub) ! j))) = Some (drop j (take k pub))"
proof (induction "k - j" arbitrary: j)
  case 0
  then have "j = k" by simp
  with assms(2,3) show ?case by (simp add: traverse_from_None)
next
  case (Suc n)
  then have lt: "j < k" and n: "n = k - Suc j" and le: "Suc j \<le> k" by simp_all
  from Suc.hyps(1) [OF n le]
  have IH: "traverse_from mem (next_img (mem (pub ! j))) = Some (drop (Suc j) (take k pub))"
    by simp
  have "j < length (take k pub)" using lt assms(3) by simp
  then have "take k pub ! j # drop (Suc j) (take k pub) = drop j (take k pub)"
    by (rule Cons_nth_drop_Suc)
  moreover have "take k pub ! j = pub ! j" using lt by simp
  ultimately have c: "pub ! j # drop (Suc j) (take k pub) = drop j (take k pub)" by simp
  show ?case
    unfolding assms(1) [OF lt] traverse_from_Some IH using c by simp
qed

lemma traverse_config_ok:
  assumes "config_ok env infos (s, ts, pub)"
  shows "\<exists>k \<le> length pub. traverse s = Some (take k pub)"
proof -
  note d = config_okD [OF assms]
  define P where "P i \<longleftrightarrow> next_img (images s ((0 # pub) ! i)) = None" for i
  define k where "k = (LEAST i. P i)"
  have "P (length pub)" using d(6) by (simp add: P_def nodes_last)
  then have Pk: "P k" and kle: "k \<le> length pub"
    unfolding k_def by (rule LeastI, rule Least_le)
  have before: "next_img (images s ((0 # pub) ! i)) = Some (pub ! i)" if "i < k" for i
  proof -
    from that have "\<not> P i" unfolding k_def by (rule not_less_Least)
    moreover from that kle have "i < length pub" by simp
    ultimately show ?thesis using d(7) [of i] by (auto simp: P_def)
  qed
  from chain_traverse [of k "images s" pub 0, OF before] Pk kle
  have "traverse_from (images s) (next_img (images s 0)) = Some (take k pub)"
    by (simp add: P_def)
  then have "traverse s = Some (take k pub)"
    by (simp add: traverse_def ksdl_get_images_def)
  with kle show ?thesis by blast
qed

lemma thread_step_decreases:
  assumes ok: "config_ok env infos (s, ts, pub)" and i: "i < length ts"
    and st: "thread_step env (ts ! i) (s, pub) = Some (t', s', pub')"
  shows "steps_left (length ts) t' < steps_left (length ts) (ts ! i)"
proof (cases "ts ! i")
  case (R_at cur seen)
  note d = config_okD [OF ok]
  show ?thesis
  proof (cases cur)
    case None
    with R_at st show ?thesis by simp
  next
    case (Some q)
    from d(9) [OF i] R_at Some have "length seen < length pub" by simp
    with d(11) have b: "length seen < length ts" by simp
    from st R_at Some have "t' = R_at (next_img (images s q)) (seen @ [(q, images s q)])"
      by auto
    with R_at Some b show ?thesis by (cases "next_img (images s q)") simp_all
  qed
next
  case R_start
  with st have "t' = R_at (ksdl_get_images s) []" by auto
  with R_start show ?thesis by (cases "ksdl_get_images s") simp_all
qed (use st in \<open>auto simp: Let_def atomic_exchange_tail_def split: if_splits option.splits\<close>)

lemma sched_step_decreases:
  assumes ok: "config_ok env infos (s, ts, pub)" and i: "i < length ts"
    and st: "thread_step env (ts ! i) (s, pub) \<noteq> None"
  shows "total_steps_left (sched_step env i (s, ts, pub)) < total_steps_left (s, ts, pub)"
proof -
  from st obtain t' s' pub' where r: "thread_step env (ts ! i) (s, pub) = Some (t', s', pub')"
    by (cases "thread_step env (ts ! i) (s, pub)") auto
  from thread_step_decreases [OF ok i r]
  have "steps_left (length ts) t' < steps_left (length ts) (ts ! i)" .
  with sum_list_map_update [OF i, of "steps_left (length ts)" t']
  have "sum_list (map (steps_left (length ts)) (ts[i := t']))
          < sum_list (map (steps_left (length ts)) ts)"
    by simp
  with i r show ?thesis by (simp add: total_steps_left_def)
qed

text \<open>
  Claim C1. Writers that insert and readers that traverse run concurrently on a registry
  that is empty at first, their atomic operations interleaved in any order. Whatever the
  schedule, in the configuration it leads to: the descriptors a reader has seen, in the
  order it saw them, are a prefix of the descriptors in the order of their publication, and
  each was fully initialised when the reader was at it (which a descriptor fresh from
  \<^verbatim>\<open>calloc\<close> is not); the published descriptors are
  distinct; the list from the head is a prefix of them that ends in a null link, so a
  traversal of it returns; and every step that a thread can still take lowers a bound on
  the number of steps that remain, so no thread can run forever.
\<close>

theorem concurrent_traversal_sees_prefix:
  assumes "empty_registry s0" and "\<forall>t \<in> set ts0. at_start t"
    and "run_schedule env sched (s0, ts0, []) = (s, ts, pub)"
  shows "(\<forall>cur seen. R_at cur seen \<in> set ts \<longrightarrow>
            (\<exists>rest. pub = map fst seen @ rest)
            \<and> (\<forall>x \<in> set seen. fully_initialized env (g_all_image_infos s0) (snd x)))
       \<and> \<not> fully_initialized env (g_all_image_infos s0) zero_image
       \<and> distinct pub
       \<and> (\<forall>p \<in> set pub. fully_initialized env (g_all_image_infos s0) (images s p))
       \<and> (\<exists>k \<le> length pub. traverse s = Some (take k pub))
       \<and> (\<forall>i < length ts. thread_step env (ts ! i) (s, pub) \<noteq> None \<longrightarrow>
            total_steps_left (sched_step env i (s, ts, pub)) < total_steps_left (s, ts, pub))"
proof -
  have "config_ok env (g_all_image_infos s0) (s0, ts0, [])"
    by (rule config_ok_initial [OF assms(1,2)])
  then have "config_ok env (g_all_image_infos s0) (run_schedule env sched (s0, ts0, []))"
    by (rule config_ok_run_schedule)
  then have ok: "config_ok env (g_all_image_infos s0) (s, ts, pub)"
    by (simp only: assms(3))
  note d = config_okD [OF ok]
  have 1: "\<forall>cur seen. R_at cur seen \<in> set ts \<longrightarrow>
            (\<exists>rest. pub = map fst seen @ rest)
            \<and> (\<forall>x \<in> set seen. fully_initialized env (g_all_image_infos s0) (snd x))"
  proof (intro allI impI)
    fix cur seen
    assume "R_at cur seen \<in> set ts"
    then obtain i where i: "i < length ts" "ts ! i = R_at cur seen"
      by (auto simp: in_set_conv_nth)
    from d(9) [OF i(1)] i(2) have m: "map fst seen = take (length seen) pub"
      and f: "\<forall>x \<in> set seen. fully_initialized env (g_all_image_infos s0) (snd x)"
      by simp_all
    have "pub = take (length seen) pub @ drop (length seen) pub" by simp
    with m have "pub = map fst seen @ drop (length seen) pub" by simp
    then have "\<exists>rest. pub = map fst seen @ rest" ..
    then show "(\<exists>rest. pub = map fst seen @ rest)
            \<and> (\<forall>x \<in> set seen. fully_initialized env (g_all_image_infos s0) (snd x))"
      using f by (rule conjI)
  qed
  have 2: "\<forall>p \<in> set pub. fully_initialized env (g_all_image_infos s0) (images s p)"
    using d(8) by blast
  have 3: "\<exists>k \<le> length pub. traverse s = Some (take k pub)"
    by (rule traverse_config_ok [OF ok])
  have 4: "\<forall>i < length ts. thread_step env (ts ! i) (s, pub) \<noteq> None \<longrightarrow>
            total_steps_left (sched_step env i (s, ts, pub)) < total_steps_left (s, ts, pub)"
    using sched_step_decreases [OF ok] by blast
  from 1 zero_image_not_initialized d(2) 2 3 4 show ?thesis by (intro conjI)
qed

text \<open>
  The example schedule: the first reader, which loaded the head before the first
  descriptor was linked, saw nothing; the second saw both descriptors in the order of
  their publication.
\<close>

theorem concurrent_traversal_sees_prefix_witness:
  "empty_registry init_registry \<and> list_all at_start ex_threads
   \<and> snd (snd (run_schedule ex_env ex_schedule (init_registry, ex_threads, []))) = [1, 2]
   \<and> map seen_by (fst (snd (run_schedule ex_env ex_schedule (init_registry, ex_threads, []))))
       = [[], [], [], [1, 2]]
   \<and> traverse (fst (run_schedule ex_env ex_schedule (init_registry, ex_threads, [])))
       = Some [1, 2]
   \<and> distinct (snd (snd (run_schedule ex_env ex_schedule (init_registry, ex_threads, []))))"
proof -
  let ?c = "run_schedule ex_env ex_schedule (init_registry, ex_threads, [])"
  have e: "empty_registry init_registry"
    by (simp add: empty_registry_def init_registry_def zero_image_def)
  have a: "\<forall>t \<in> set ex_threads. at_start t" by (simp add: ex_threads_def)
  have r: "?c = (fst ?c, fst (snd ?c), snd (snd ?c))" by simp
  from concurrent_traversal_sees_prefix [OF e a r]
  have d: "distinct (snd (snd ?c))" by blast
  have p: "snd (snd ?c) = [1, 2]" by code_simp
  have v: "map seen_by (fst (snd ?c)) = [[], [], [], [1, 2]]" by code_simp
  have t: "traverse (fst ?c) = Some [1, 2]" by code_simp
  from a have a': "list_all at_start ex_threads" by (simp add: list_all_iff)
  from e a' p v t d show ?thesis by (intro conjI)
qed

section \<open>Removal\<close>

lemma get_path_None_infos:
  assumes "get_path env None hdr = Some nm"
  shows "get_path env infos hdr = Some nm"
proof -
  from assms have "dladdr env (ptr_addr hdr) = Some nm"
    by (cases "dladdr env (ptr_addr hdr)") (simp_all add: get_path_def)
  then show ?thesis by (simp add: get_path_def)
qed

lemma parse_success_later:
  assumes "ksdl_getBinaryImageForHeader env infos hdr sl buf = Some d"
    and "infos' = infos \<or> infos = None"
  shows "\<exists>e. ksdl_getBinaryImageForHeader env infos' hdr sl' buf' = Some e
           \<and> vmAddress e = vmAddress d"
proof -
  from assms(1) obtain a h nm where hdr: "hdr = Some (a, h)"
    and gp: "get_path env infos hdr = Some nm"
    and fc: "ksdl_first_cmd_after_header hdr \<noteq> 0"
    and d: "d = (getCrashInfo (fill_buffer hdr h sl nm
                    (scan_cmds (header_cmds h) init_locals) buf))\<lparr>next_img := None\<rparr>"
    by (rule parse_SomeD)
  from assms(2) gp obtain nm' where gp': "get_path env infos' hdr = Some nm'"
    by (auto dest: get_path_None_infos)
  from parse_Some [OF fc [unfolded hdr] gp' [unfolded hdr], of sl' buf']
  have "ksdl_getBinaryImageForHeader env infos' hdr sl' buf' =
          Some ((getCrashInfo (fill_buffer hdr h sl' nm'
                    (scan_cmds (header_cmds h) init_locals) buf'))\<lparr>next_img := None\<rparr>)"
    by (simp add: hdr)
  moreover have "vmAddress ((getCrashInfo (fill_buffer hdr h sl' nm'
                    (scan_cmds (header_cmds h) init_locals) buf'))\<lparr>next_img := None\<rparr>)
                 = vmAddress d"
    by (simp add: d fill_buffer_def)
  ultimately show ?thesis by blast
qed

lemma evolves_image:
  assumes "evolves s s'" "p \<le> allocated s"
  shows "images s' p = (images s p)\<lparr>unloaded := unloaded (images s' p),
                                    next_img := next_img (images s' p)\<rparr>"
proof -
  from assms(1) have "\<forall>p \<le> allocated s.
      images s' p = (images s p)\<lparr>unloaded := unloaded (images s' p),
                                  next_img := next_img (images s' p)\<rparr>"
    unfolding evolves_def by (elim conjE)
  then have "p \<le> allocated s \<longrightarrow>
      images s' p = (images s p)\<lparr>unloaded := unloaded (images s' p),
                                  next_img := next_img (images s' p)\<rparr>"
    by (rule spec)
  then show ?thesis using assms(2) by (rule mp)
qed

lemma evolves_unloaded:
  assumes "evolves s s'" "p \<le> allocated s" "unloaded (images s p)"
  shows "unloaded (images s' p)"
proof -
  from assms(1) have "\<forall>p \<le> allocated s. unloaded (images s p) \<longrightarrow> unloaded (images s' p)"
    unfolding evolves_def by (elim conjE)
  with assms(2,3) show ?thesis by blast
qed

lemma evolves_allocated: "evolves s s' \<Longrightarrow> allocated s \<le> allocated s'"
  unfolding evolves_def by (elim conjE)

lemma evolves_infos:
  "evolves s s' \<Longrightarrow> g_all_image_infos s' = g_all_image_infos s \<or> g_all_image_infos s = None"
  unfolding evolves_def by (elim conjE)

lemma remove_image_traverse:
  assumes "linked s"
  shows "\<exists>s'. remove_image env hdr sl s = Some s' \<and> traverse s' = traverse s
           \<and> allocated s' = allocated s
           \<and> (\<forall>p. images s' p = images s p \<or> images s' p = (images s p)\<lparr>unloaded := True\<rparr>)"
proof (cases "ksdl_getBinaryImageForHeader env (g_all_image_infos s) hdr sl zero_image")
  case None
  then show ?thesis by (simp add: remove_image_fail)
next
  case (Some e)
  from remove_image_linked [OF assms, of env hdr sl] obtain s' where
    r: "remove_image env hdr sl s = Some s'" and l': "linked s'"
    and al: "allocated s' = allocated s"
    by blast
  have "traverse s' = traverse s"
    by (simp add: traverse_linked [OF l'] traverse_linked [OF assms] al)
  moreover have "\<forall>p. images s' p = images s p \<or> images s' p = (images s p)\<lparr>unloaded := True\<rparr>"
    using r unfolding remove_image_success [OF assms Some] by auto
  ultimately show ?thesis using r al by blast
qed

lemma image_at_address_not_unloaded:
  assumes "linked s" "unloaded (images s p)"
  shows "\<exists>r. ksdl_image_at_address s a = Some r \<and> r \<noteq> Some p"
proof -
  have "find (\<lambda>q. contains_address (images s q) a) [1..<Suc (allocated s)] \<noteq> Some p"
  proof
    assume "find (\<lambda>q. contains_address (images s q) a) [1..<Suc (allocated s)] = Some p"
    then have "contains_address (images s p) a" by (metis find_Some_iff)
    with assms(2) show False by (simp add: contains_address_iff)
  qed
  then show ?thesis by (simp add: image_at_address_linked [OF assms(1)])
qed

text \<open>
  Claim C2. From any state the registry reaches, let an image header be added
  successfully, let any calls follow, then let the same header be removed (with whatever
  displacement), and let any calls follow again. All these calls return. In the state they
  lead to, the descriptor created by the add is still visited by the traversal from the
  head, it is the descriptor the parser produced except that \<open>unloaded\<close> is true (and its
  link may have been set), and for no address at all, so for none inside the image's
  range, does the lookup by address return it. A removal on its own leaves the traversal
  and the number of descriptors as they were and changes a descriptor at most by setting
  its \<open>unloaded\<close> flag.
\<close>

theorem remove_marks_unloaded:
  assumes "do_calls env cs init_registry = Some s"
    and "calloc_ok env (allocated s)"
    and "ksdl_getBinaryImageForHeader env (g_all_image_infos s) hdr sl zero_image = Some d"
  shows "(\<exists>sf ptrs.
            do_calls env (Add hdr sl # mid @ Remove hdr sl' # after) s = Some sf
          \<and> traverse sf = Some ptrs
          \<and> Suc (allocated s) \<in> set ptrs
          \<and> images sf (Suc (allocated s)) =
              d\<lparr>unloaded := True, next_img := next_img (images sf (Suc (allocated s)))\<rparr>
          \<and> (\<forall>a. \<exists>r. ksdl_image_at_address sf a = Some r \<and> r \<noteq> Some (Suc (allocated s))))
     \<and> (\<exists>s'. remove_image env hdr' sl'' s = Some s'
          \<and> traverse s' = traverse s
          \<and> allocated s' = allocated s
          \<and> (\<forall>p. images s' p = images s p \<or> images s' p = (images s p)\<lparr>unloaded := True\<rparr>))"
proof (rule conjI)
  from assms(1) have l: "linked s" by (rule reachable_linked)
  show "\<exists>s'. remove_image env hdr' sl'' s = Some s'
          \<and> traverse s' = traverse s
          \<and> allocated s' = allocated s
          \<and> (\<forall>p. images s' p = images s p \<or> images s' p = (images s p)\<lparr>unloaded := True\<rparr>)"
    by (rule remove_image_traverse [OF l])
  define p where "p = Suc (allocated s)"
  define s0 where "s0 = add_image env hdr sl s"
  note a = add_image_success_linked [OF l assms(2,3)]
  have l0: "linked s0" unfolding s0_def by (rule a(6))
  have al0: "allocated s0 = p" by (simp add: s0_def p_def a(1))
  have im0: "images s0 p = d" by (simp add: s0_def p_def a(2))
  have g0: "g_all_image_infos s0 = g_all_image_infos s" by (simp add: s0_def a(3))
  from do_calls_linked [OF l0, of env mid] obtain s1 where
    s1: "do_calls env mid s0 = Some s1" and l1: "linked s1" by blast
  from do_calls_evolves [OF l0 s1] have e1: "evolves s0 s1" by simp
  from evolves_allocated [OF e1] al0 have p1: "p \<le> allocated s1" by simp
  have p0: "p \<le> allocated s0" by (simp add: al0)
  note im1 = evolves_image [OF e1 p0, unfolded im0]
  from evolves_infos [OF e1] g0
  have "g_all_image_infos s1 = g_all_image_infos s \<or> g_all_image_infos s = None"
    by simp
  from parse_success_later [OF assms(3) this, of sl' zero_image] obtain e where
    e: "ksdl_getBinaryImageForHeader env (g_all_image_infos s1) hdr sl' zero_image = Some e"
    and ve: "vmAddress e = vmAddress d" by blast
  define s2 where "s2 = s1\<lparr>images := (\<lambda>q. if 1 \<le> q \<and> q \<le> allocated s1
                                       \<and> vmAddress (images s1 q) = vmAddress e
                                    then (images s1 q)\<lparr>unloaded := True\<rparr> else images s1 q)\<rparr>"
  have r2: "remove_image env hdr sl' s1 = Some s2"
    unfolding s2_def by (rule remove_image_success [OF l1 e])
  from remove_image_linked [OF l1, of env hdr sl'] r2 have l2: "linked s2" by auto
  have "vmAddress (images s1 p) = vmAddress e"
    by (subst im1) (simp add: ve)
  then have im2: "images s2 p = (images s1 p)\<lparr>unloaded := True\<rparr>"
    using p1 by (simp add: s2_def p_def)
  have al2: "allocated s2 = allocated s1" by (simp add: s2_def)
  from do_calls_linked [OF l2, of env after] obtain sf where
    sf: "do_calls env after s2 = Some sf" and lf: "linked sf" by blast
  from do_calls_evolves [OF l2 sf] have ef: "evolves s2 sf" by simp
  have p2: "p \<le> allocated s2" using p1 al2 by simp
  from evolves_allocated [OF ef] p2 have pf: "p \<le> allocated sf" by simp
  have "unloaded (images s2 p)" by (simp add: im2)
  from evolves_unloaded [OF ef p2 this] have uf: "unloaded (images sf p)" .
  note imf0 = evolves_image [OF ef p2]
  have "images s2 p = d\<lparr>unloaded := True, next_img := next_img (images s1 p)\<rparr>"
    unfolding im2 by (subst im1) simp
  then have imf: "images sf p = d\<lparr>unloaded := True, next_img := next_img (images sf p)\<rparr>"
    by (subst imf0) (simp add: uf)
  have run: "do_calls env (Add hdr sl # mid @ Remove hdr sl' # after) s = Some sf"
  proof -
    have "do_calls env (mid @ Remove hdr sl' # after) s0 = Some sf"
      using s1 r2 sf
    proof (induction mid arbitrary: s0)
      case Nil
      then show ?case by simp
    next
      case (Cons c mid)
      then show ?case by (cases "do_call env c s0") auto
    qed
    then show ?thesis by (simp add: s0_def)
  qed
  have tr: "traverse sf = Some [1..<Suc (allocated sf)]" by (rule traverse_linked [OF lf])
  have mem: "p \<in> set [1..<Suc (allocated sf)]"
    using pf by (simp add: p_def del: upt_Suc)
  have look: "\<forall>a. \<exists>r. ksdl_image_at_address sf a = Some r \<and> r \<noteq> Some p"
    using image_at_address_not_unloaded [OF lf uf] by blast
  from run tr mem imf look
  show "\<exists>sf ptrs.
            do_calls env (Add hdr sl # mid @ Remove hdr sl' # after) s = Some sf
          \<and> traverse sf = Some ptrs
          \<and> Suc (allocated s) \<in> set ptrs
          \<and> images sf (Suc (allocated s)) =
              d\<lparr>unloaded := True, next_img := next_img (images sf (Suc (allocated s)))\<rparr>
          \<and> (\<forall>a. \<exists>r. ksdl_image_at_address sf a = Some r \<and> r \<noteq> Some (Suc (allocated s)))"
    unfolding p_def by blast
qed


text \<open>
  The library is added to the empty registry, then the executable, then the library is
  removed: the traversal still yields both descriptors, the library's is unloaded, and its
  base address is found in no image, while the executable's is found in the executable.
\<close>

theorem remove_marks_unloaded_witness:
  "map_option traverse
     (do_calls ex_env [Add ex_hdr ex_slide, Add ex_hdr2 0, Remove ex_hdr ex_slide] init_registry)
     = Some (Some [1, 2])
   \<and> map_option (\<lambda>s. unloaded (images s 1))
     (do_calls ex_env [Add ex_hdr ex_slide, Add ex_hdr2 0, Remove ex_hdr ex_slide] init_registry)
     = Some True
   \<and> Option.bind
     (do_calls ex_env [Add ex_hdr ex_slide, Add ex_hdr2 0, Remove ex_hdr ex_slide] init_registry)
     (\<lambda>s. ksdl_image_at_address s 0x100001000) = Some None
   \<and> Option.bind
     (do_calls ex_env [Add ex_hdr ex_slide, Add ex_hdr2 0, Remove ex_hdr ex_slide] init_registry)
     (\<lambda>s. ksdl_image_at_address s 0x200000000) = Some (Some 2)"
proof -
  have h: "do_calls ex_env [] init_registry = Some init_registry" by simp
  have c: "calloc_ok ex_env (allocated init_registry)" by (simp add: ex_env_def)
  have g: "g_all_image_infos init_registry = None" by (simp add: init_registry_def)
  from ex_parse_ok(1) [of ex_slide] g obtain d where
    d: "ksdl_getBinaryImageForHeader ex_env (g_all_image_infos init_registry) ex_hdr ex_slide
          zero_image = Some d"
    by auto
  from remove_marks_unloaded [OF h c d, of "[Add ex_hdr2 0]" ex_slide "[]"]
  obtain sf where
    run: "do_calls ex_env (Add ex_hdr ex_slide # [Add ex_hdr2 0] @ Remove ex_hdr ex_slide # [])
            init_registry = Some sf"
    and im: "images sf (Suc (allocated init_registry)) =
              d\<lparr>unloaded := True,
                 next_img := next_img (images sf (Suc (allocated init_registry)))\<rparr>"
    by blast
  have "allocated init_registry = 0" by (simp add: init_registry_def)
  with im have "unloaded (images sf 1) = unloaded (d\<lparr>unloaded := True,
                 next_img := next_img (images sf 1)\<rparr>)"
    by simp
  then have "unloaded (images sf 1)" by simp
  with run have U: "map_option (\<lambda>s. unloaded (images s 1))
     (do_calls ex_env [Add ex_hdr ex_slide, Add ex_hdr2 0, Remove ex_hdr ex_slide] init_registry)
     = Some True"
    by simp
  have T: "map_option traverse
     (do_calls ex_env [Add ex_hdr ex_slide, Add ex_hdr2 0, Remove ex_hdr ex_slide] init_registry)
     = Some (Some [1, 2])"
    by code_simp
  have L1: "Option.bind
     (do_calls ex_env [Add ex_hdr ex_slide, Add ex_hdr2 0, Remove ex_hdr ex_slide] init_registry)
     (\<lambda>s. ksdl_image_at_address s 0x100001000) = Some None"
    by code_simp
  have L2: "Option.bind
     (do_calls ex_env [Add ex_hdr ex_slide, Add ex_hdr2 0, Remove ex_hdr ex_slide] init_registry)
     (\<lambda>s. ksdl_image_at_address s 0x200000000) = Some (Some 2)"
    by code_simp
  from T U L1 L2 show ?thesis by (intro conjI)
qed

section \<open>Insertion\<close>

lemma do_calls_adds:
  "do_calls env (map (\<lambda>(hdr, sl). Add hdr sl) adds) s
     = Some (fold (\<lambda>(hdr, sl). add_image env hdr sl) adds s)"
  by (induction adds arbitrary: s) auto

lemma fold_add_success:
  assumes "linked s" "\<forall>n. calloc_ok env n"
    and "\<forall>(hdr, sl) \<in> set adds.
           ksdl_getBinaryImageForHeader env (g_all_image_infos s) hdr sl zero_image \<noteq> None"
  shows "allocated (fold (\<lambda>(hdr, sl). add_image env hdr sl) adds s) = allocated s + length adds
     \<and> map (\<lambda>p. header (images (fold (\<lambda>(hdr, sl). add_image env hdr sl) adds s) p))
           [Suc (allocated s)..<Suc (allocated s + length adds)] = map fst adds"
  using assms(3)
proof (induction adds rule: rev_induct)
  case Nil
  then show ?case by simp
next
  case (snoc x xs)
  obtain hdr sl where x: "x = (hdr, sl)" by (cases x)
  define s1 where "s1 = fold (\<lambda>(hdr, sl). add_image env hdr sl) xs s"
  define n1 where "n1 = allocated s + length xs"
  from snoc have IH: "allocated s1 = n1"
    "map (\<lambda>p. header (images s1 p)) [Suc (allocated s)..<Suc n1] = map fst xs"
    by (simp_all add: s1_def n1_def)
  have l1: "linked s1" unfolding s1_def by (rule fold_add_image_linked [OF assms(1)])
  have g1: "g_all_image_infos s1 = g_all_image_infos s"
    unfolding s1_def by (rule fold_add_image_frame)
  from snoc.prems x g1 obtain filled where
    f: "ksdl_getBinaryImageForHeader env (g_all_image_infos s1) hdr sl zero_image = Some filled"
    by auto
  from assms(2) have c: "calloc_ok env (allocated s1)" by simp
  note a = add_image_success_linked [OF l1 c f]
  have hf: "header filled = hdr" using f by (rule parse_header)
  define s2 where "s2 = add_image env hdr sl s1"
  have same: "header (images s2 p) = header (images s1 p)" if "p \<le> n1" for p
    using that by (simp add: s2_def a(2) IH(1))
  have "map (\<lambda>p. header (images s2 p)) [Suc (allocated s)..<Suc n1]
          = map (\<lambda>p. header (images s1 p)) [Suc (allocated s)..<Suc n1]"
    by (rule map_cong) (auto simp: same)
  with IH(2) have m1: "map (\<lambda>p. header (images s2 p)) [Suc (allocated s)..<Suc n1] = map fst xs"
    by simp
  have m2: "header (images s2 (Suc n1)) = hdr"
    by (simp add: s2_def a(2) IH(1) hf)
  have "Suc (allocated s) \<le> Suc n1" by (simp add: n1_def)
  then have "[Suc (allocated s)..<Suc (Suc n1)] = [Suc (allocated s)..<Suc n1] @ [Suc n1]"
    by (rule upt_Suc_append)
  moreover have "Suc (allocated s + length (xs @ [x])) = Suc (Suc n1)"
    by (simp add: n1_def)
  ultimately have u: "[Suc (allocated s)..<Suc (allocated s + length (xs @ [x]))]
                   = [Suc (allocated s)..<Suc n1] @ [Suc n1]"
    by (simp only:)
  have f2: "fold (\<lambda>(hdr, sl). add_image env hdr sl) (xs @ [x]) s = s2"
    by (simp add: s1_def s2_def x)
  have "allocated s2 = allocated s + length (xs @ [x])"
    using a(1) IH(1) by (simp add: s2_def n1_def)
  moreover have "map (\<lambda>p. header (images s2 p)) ([Suc (allocated s)..<Suc n1] @ [Suc n1])
                   = map fst (xs @ [x])"
    using m1 m2 by (simp add: x del: upt_Suc)
  ultimately show ?case
    unfolding f2 u by (rule conjI)
qed

text \<open>
  Claim C3. Starting from any state the registry reaches, the empty registry among them,
  a sequence of N insertions that all succeed makes the traversal yield the descriptors it
  yielded before followed by exactly N new ones, whose headers are the inserted headers in
  the order of insertion; the headers need not be distinct, so inserting one header twice
  gives two descriptors. Whatever calls follow, a link of an existing descriptor that is
  set, that is, of a descriptor that has a successor, keeps its value.
\<close>

theorem insertion_order_append_only:
  assumes "do_calls env cs init_registry = Some s"
  shows "((\<forall>n. calloc_ok env n)
          \<and> (\<forall>(hdr, sl) \<in> set adds.
                ksdl_getBinaryImageForHeader env (g_all_image_infos s) hdr sl zero_image \<noteq> None)
          \<longrightarrow> (\<exists>s' old new.
                 do_calls env (map (\<lambda>(hdr, sl). Add hdr sl) adds) s = Some s'
               \<and> traverse s = Some old
               \<and> traverse s' = Some (old @ new)
               \<and> length new = length adds
               \<and> map (\<lambda>p. header (images s' p)) new = map fst adds
               \<and> distinct (old @ new)))
     \<and> (\<forall>cs' s'. do_calls env cs' s = Some s' \<longrightarrow>
           (\<forall>p \<le> allocated s. next_img (images s p) \<noteq> None \<longrightarrow>
              next_img (images s' p) = next_img (images s p)))"
proof (intro conjI impI allI)
  from assms have l: "linked s" by (rule reachable_linked)
  {
    assume h: "(\<forall>n. calloc_ok env n)
          \<and> (\<forall>(hdr, sl) \<in> set adds.
                ksdl_getBinaryImageForHeader env (g_all_image_infos s) hdr sl zero_image \<noteq> None)"
    define s' where "s' = fold (\<lambda>(hdr, sl). add_image env hdr sl) adds s"
    let ?old = "[1..<Suc (allocated s)]"
    let ?new = "[Suc (allocated s)..<Suc (allocated s + length adds)]"
    from h have c: "\<forall>n. calloc_ok env n" and ok: "\<forall>(hdr, sl) \<in> set adds.
                ksdl_getBinaryImageForHeader env (g_all_image_infos s) hdr sl zero_image \<noteq> None"
      by blast+
    from fold_add_success [OF l c ok] have
      al: "allocated s' = allocated s + length adds"
      and hd: "map (\<lambda>p. header (images s' p)) ?new = map fst adds"
      by (simp_all add: s'_def)
    have l': "linked s'" unfolding s'_def by (rule fold_add_image_linked [OF l])
    have 1: "do_calls env (map (\<lambda>(hdr, sl). Add hdr sl) adds) s = Some s'"
      unfolding s'_def by (rule do_calls_adds)
    have 2: "traverse s = Some ?old" by (rule traverse_linked [OF l])
    have "[1..<Suc (allocated s + length adds)] = ?old @ ?new"
      by (metis Suc_le_mono le_add1 le_add2 plus_1_eq_Suc upt_add_eq_append
            ordered_cancel_comm_monoid_diff_class.add_diff_inverse)
    then have 3: "traverse s' = Some (?old @ ?new)"
      using traverse_linked [OF l'] by (simp add: al)
    have 4: "length ?new = length adds" by (simp del: upt_Suc)
    have 5: "distinct (?old @ ?new)" by auto
    from 1 2 3 4 hd 5
    show "\<exists>s' old new.
                 do_calls env (map (\<lambda>(hdr, sl). Add hdr sl) adds) s = Some s'
               \<and> traverse s = Some old
               \<and> traverse s' = Some (old @ new)
               \<and> length new = length adds
               \<and> map (\<lambda>p. header (images s' p)) new = map fst adds
               \<and> distinct (old @ new)"
      by blast
  }
  {
    fix cs' s' p
    assume "do_calls env cs' s = Some s'" "p \<le> allocated s" "next_img (images s p) \<noteq> None"
    with do_calls_evolves [OF l] show "next_img (images s' p) = next_img (images s p)"
      by (simp add: evolves_def)
  }
qed


text \<open>
  Into the empty registry the executable and twice the library are inserted: the traversal
  yields three descriptors, in that order.
\<close>

theorem insertion_order_append_only_witness:
  "traverse (fold (\<lambda>(hdr, sl). add_image ex_env hdr sl) ex_adds init_registry) = Some [1, 2, 3]
   \<and> map (\<lambda>p. header (images (fold (\<lambda>(hdr, sl). add_image ex_env hdr sl) ex_adds
                                  init_registry) p)) [1, 2, 3]
       = [ex_hdr2, ex_hdr, ex_hdr]"
proof -
  let ?s = "fold (\<lambda>(hdr, sl). add_image ex_env hdr sl) ex_adds init_registry"
  have h: "do_calls ex_env [] init_registry = Some init_registry" by simp
  have ok: "(\<forall>n. calloc_ok ex_env n)
          \<and> (\<forall>(hdr, sl) \<in> set ex_adds.
                ksdl_getBinaryImageForHeader ex_env (g_all_image_infos init_registry) hdr sl
                  zero_image \<noteq> None)"
    using ex_parse_ok by (simp add: ex_adds_def ex_env_def init_registry_def)
  from insertion_order_append_only [OF h, of ex_adds] ok
  obtain s' old new where
    "do_calls ex_env (map (\<lambda>(hdr, sl). Add hdr sl) ex_adds) init_registry = Some s'"
    and o: "traverse init_registry = Some old"
    and t: "traverse s' = Some (old @ new)"
    and m: "map (\<lambda>p. header (images s' p)) new = map fst ex_adds"
    by blast
  then have s': "s' = ?s" by (simp add: do_calls_adds)
  have "traverse init_registry = Some []" by code_simp
  with o have "old = []" by simp
  moreover have e: "traverse ?s = Some [1, 2, 3]" by code_simp
  ultimately have "new = [1, 2, 3]" using t s' by simp
  with m s' have "map (\<lambda>p. header (images ?s p)) [1, 2, 3] = map fst ex_adds" by simp
  then have "map (\<lambda>p. header (images ?s p)) [1, 2, 3] = [ex_hdr2, ex_hdr, ex_hdr]"
    by (simp add: ex_adds_def)
  with e show ?thesis by (rule conjI)
qed

section \<open>Lookup by address\<close>

lemma base_below_end_iff:
  fixes b sz :: "64 word"
  shows "b < b + sz \<longleftrightarrow> sz \<noteq> 0 \<and> unat b + unat sz < 2 ^ 64"
proof (cases "unat b + unat sz < 2 ^ 64")
  case True
  then have "unat (b + sz) = unat b + unat sz"
    by (simp add: unat_add_lem [THEN iffD1])
  with True show ?thesis
    by (simp add: word_less_nat_alt unat_gt_0)
next
  case False
  have "unat sz < 2 ^ 64" using unsigned_less [of sz] by simp
  moreover have "unat b < 2 ^ 64" using unsigned_less [of b] by simp
  moreover have "unat (b + sz) = (unat b + unat sz) mod 2 ^ 64"
    by (simp add: unat_word_ariths)
  ultimately have "unat (b + sz) = unat b + unat sz - 2 ^ 64"
    using False by (simp add: mod_if)
  with \<open>unat sz < 2 ^ 64\<close> False have "\<not> unat b < unat (b + sz)" by simp
  with False show ?thesis by (simp add: word_less_nat_alt)
qed

lemma contains_address_wrap:
  assumes "2 ^ 64 \<le> unat (ptr_addr (header img)) + unat (size_img img)"
  shows "\<not> contains_address img a"
proof
  assume "contains_address img a"
  then have "ptr_addr (header img) \<le> a" "a < ptr_addr (header img) + size_img img"
    by (simp_all add: contains_address_iff)
  then have "ptr_addr (header img) < ptr_addr (header img) + size_img img" by simp
  with assms show False by (simp add: base_below_end_iff)
qed

lemma contains_address_base:
  "contains_address img (ptr_addr (header img)) \<longleftrightarrow>
     \<not> unloaded img \<and> size_img img \<noteq> 0
       \<and> unat (ptr_addr (header img)) + unat (size_img img) < 2 ^ 64"
  by (simp add: contains_address_iff base_below_end_iff)

text \<open>
  Claim C5, amended. In every state the registry reaches, for every address, the lookup by
  address returns the first descriptor of the traversal that is not unloaded and whose
  range from the header's address up to, and not including, that address plus the size
  contains the address, the sum being taken in 64-bit arithmetic. For a descriptor whose
  range does not wrap around the address space this is the half-open interval of numbers;
  a descriptor whose range wraps contains no address. The header's own address is inside
  the range exactly when the descriptor is live, its size is not zero and its range does
  not wrap; the address one past the end is outside, and an unloaded descriptor contains
  no address and is never returned.
\<close>

theorem image_at_address_first_live_match:
  assumes "do_calls env cs init_registry = Some s"
  shows "\<exists>ptrs. traverse s = Some ptrs
      \<and> ksdl_image_at_address s a =
          Some (find (\<lambda>p. \<not> unloaded (images s p)
                          \<and> ptr_addr (header (images s p)) \<le> a
                          \<and> a < ptr_addr (header (images s p)) + size_img (images s p)) ptrs)
      \<and> (\<forall>p \<in> set ptrs.
            unat (ptr_addr (header (images s p))) + unat (size_img (images s p)) < 2 ^ 64 \<longrightarrow>
              (contains_address (images s p) a \<longleftrightarrow>
                 \<not> unloaded (images s p)
                 \<and> unat (ptr_addr (header (images s p))) \<le> unat a
                 \<and> unat a < unat (ptr_addr (header (images s p))) + unat (size_img (images s p))))
      \<and> (\<forall>p \<in> set ptrs.
            2 ^ 64 \<le> unat (ptr_addr (header (images s p))) + unat (size_img (images s p)) \<longrightarrow>
              \<not> contains_address (images s p) a)
      \<and> (\<forall>p \<in> set ptrs.
            contains_address (images s p) (ptr_addr (header (images s p))) \<longleftrightarrow>
              \<not> unloaded (images s p) \<and> size_img (images s p) \<noteq> 0
              \<and> unat (ptr_addr (header (images s p))) + unat (size_img (images s p)) < 2 ^ 64)
      \<and> (\<forall>p \<in> set ptrs.
            \<not> contains_address (images s p)
                 (ptr_addr (header (images s p)) + size_img (images s p)))
      \<and> (\<forall>p \<in> set ptrs. unloaded (images s p) \<longrightarrow> \<not> contains_address (images s p) a)
      \<and> (\<forall>p. ksdl_image_at_address s a = Some (Some p) \<longrightarrow>
            p \<in> set ptrs \<and> \<not> unloaded (images s p))"
proof -
  from assms have l: "linked s" by (rule reachable_linked)
  let ?ptrs = "[1..<Suc (allocated s)]"
  have 1: "traverse s = Some ?ptrs" by (rule traverse_linked [OF l])
  have 2: "ksdl_image_at_address s a =
          Some (find (\<lambda>p. \<not> unloaded (images s p)
                          \<and> ptr_addr (header (images s p)) \<le> a
                          \<and> a < ptr_addr (header (images s p)) + size_img (images s p)) ?ptrs)"
    unfolding image_at_address_linked [OF l] contains_address_iff ..
  have 3: "\<forall>p \<in> set ?ptrs.
            unat (ptr_addr (header (images s p))) + unat (size_img (images s p)) < 2 ^ 64 \<longrightarrow>
              (contains_address (images s p) a \<longleftrightarrow>
                 \<not> unloaded (images s p)
                 \<and> unat (ptr_addr (header (images s p))) \<le> unat a
                 \<and> unat a < unat (ptr_addr (header (images s p))) + unat (size_img (images s p)))"
    using contains_address_range by blast
  have 4: "\<forall>p \<in> set ?ptrs.
            2 ^ 64 \<le> unat (ptr_addr (header (images s p))) + unat (size_img (images s p)) \<longrightarrow>
              \<not> contains_address (images s p) a"
    using contains_address_wrap by blast
  have 5: "\<forall>p \<in> set ?ptrs.
            contains_address (images s p) (ptr_addr (header (images s p))) \<longleftrightarrow>
              \<not> unloaded (images s p) \<and> size_img (images s p) \<noteq> 0
              \<and> unat (ptr_addr (header (images s p))) + unat (size_img (images s p)) < 2 ^ 64"
    by (intro ballI) (rule contains_address_base)
  have 6: "\<forall>p \<in> set ?ptrs.
            \<not> contains_address (images s p)
                 (ptr_addr (header (images s p)) + size_img (images s p))"
    by (simp add: contains_address_iff)
  have 7: "\<forall>p \<in> set ?ptrs. unloaded (images s p) \<longrightarrow> \<not> contains_address (images s p) a"
    by (simp add: contains_address_iff)
  have 8: "\<forall>p. ksdl_image_at_address s a = Some (Some p) \<longrightarrow>
            p \<in> set ?ptrs \<and> \<not> unloaded (images s p)"
  proof (intro allI impI)
    fix p
    assume "ksdl_image_at_address s a = Some (Some p)"
    then have "find (\<lambda>q. contains_address (images s q) a) ?ptrs = Some p"
      by (simp add: image_at_address_linked [OF l])
    then have "p \<in> set ?ptrs \<and> contains_address (images s p) a"
      by (metis find_Some_iff nth_mem)
    then show "p \<in> set ?ptrs \<and> \<not> unloaded (images s p)"
      by (simp add: contains_address_iff)
  qed
  from 1 2 3 4 5 6 7 8 show ?thesis by (intro exI [of _ ?ptrs] conjI)
qed

lemma ex_address_eval:
  "find (\<lambda>p. \<not> unloaded (images ex_state p)
              \<and> ptr_addr (header (images ex_state p)) \<le> 0x100001000
              \<and> 0x100001000 < ptr_addr (header (images ex_state p)) + size_img (images ex_state p))
     [1, 2] = Some 2"
  "find (\<lambda>p. \<not> unloaded (images ex_state p)
              \<and> ptr_addr (header (images ex_state p)) \<le> 0x100004FFF
              \<and> 0x100004FFF < ptr_addr (header (images ex_state p)) + size_img (images ex_state p))
     [1, 2] = Some 2"
  "find (\<lambda>p. \<not> unloaded (images ex_state p)
              \<and> ptr_addr (header (images ex_state p)) \<le> 0x100005000
              \<and> 0x100005000 < ptr_addr (header (images ex_state p)) + size_img (images ex_state p))
     [1, 2] = None"
  "find (\<lambda>p. \<not> unloaded (images ex_removed p)
              \<and> ptr_addr (header (images ex_removed p)) \<le> 0x100001000
              \<and> 0x100001000 < ptr_addr (header (images ex_removed p)) + size_img (images ex_removed p))
     [1, 2] = None"
  by code_simp+

text \<open>
  In the example registry the library's base address and its last byte are found in the
  library, the address one past its end is in no image, and after the removal the base
  address is in no image.
\<close>

theorem image_at_address_first_live_match_witness:
  "do_calls ex_env ex_calls init_registry = Some ex_state
   \<and> ksdl_image_at_address ex_state 0x100001000 = Some (Some 2)
   \<and> ksdl_image_at_address ex_state 0x100004FFF = Some (Some 2)
   \<and> ksdl_image_at_address ex_state 0x100005000 = Some None
   \<and> ksdl_image_at_address ex_removed 0x100001000 = Some None"
proof -
  have R: "ksdl_image_at_address s a =
          Some (find (\<lambda>p. \<not> unloaded (images s p)
                          \<and> ptr_addr (header (images s p)) \<le> a
                          \<and> a < ptr_addr (header (images s p)) + size_img (images s p)) [1, 2])"
    if "do_calls ex_env cs init_registry = Some s" and "traverse s = Some [1, 2]"
    for s cs a
  proof -
    from image_at_address_first_live_match [OF that(1), of a]
    obtain ptrs where "traverse s = Some ptrs"
      and r: "ksdl_image_at_address s a =
          Some (find (\<lambda>p. \<not> unloaded (images s p)
                          \<and> ptr_addr (header (images s p)) \<le> a
                          \<and> a < ptr_addr (header (images s p)) + size_img (images s p)) ptrs)"
      by blast
    with that(2) have "ptrs = [1, 2]" by simp
    with r show ?thesis by simp
  qed
  note A = R [OF ex_state_reached ex_traverse]
  note B = R [OF ex_removed_reached ex_traverse_removed]
  show ?thesis
    by (simp only: A B ex_address_eval ex_state_reached simp_thms)
qed

text \<open>
  As the claim words it, an address equal to a descriptor's header address matches that
  descriptor. It does not when the image has no \<^verbatim>\<open>__TEXT\<close> segment: the library is added,
  its descriptor is live, its size is zero, and the lookup of its header's address finds
  no image.
\<close>

theorem base_of_image_without_text_counterexample:
  "do_calls ex_env_notext [Add ex_hdr_notext 0] init_registry = Some ex_state_notext
   \<and> traverse ex_state_notext = Some [1]
   \<and> \<not> unloaded (images ex_state_notext 1)
   \<and> ptr_addr (header (images ex_state_notext 1)) = 0x600000000
   \<and> size_img (images ex_state_notext 1) = 0
   \<and> ksdl_image_at_address ex_state_notext 0x600000000 = Some None"
proof -
  have 1: "do_calls ex_env_notext [Add ex_hdr_notext 0] init_registry = Some ex_state_notext"
    by (simp add: ex_state_notext_def)
  have 2: "traverse ex_state_notext = Some [1]" by code_simp
  have 3: "\<not> unloaded (images ex_state_notext 1)" by code_simp
  have 4: "ptr_addr (header (images ex_state_notext 1)) = 0x600000000" by code_simp
  have 5: "size_img (images ex_state_notext 1) = 0" by code_simp
  have 6: "ksdl_image_at_address ex_state_notext 0x600000000 = Some None" by code_simp
  from 1 2 3 4 5 6 show ?thesis by (intro conjI)
qed

section \<open>Lookup by name\<close>

lemma name_matches_iff:
  "name_matches img imageName exactMatch \<longleftrightarrow>
     (\<exists>nm. name img = Some nm \<and> \<not> unloaded img
        \<and> (if exactMatch then nm = imageName else (\<exists>pre post. nm = pre @ imageName @ post)))"
proof (cases "name img")
  case None
  then show ?thesis by (simp add: name_matches_def)
next
  case (Some nm)
  have "strstr nm imageName \<noteq> None \<longleftrightarrow> (\<exists>pre post. nm = pre @ imageName @ post)"
    by (rule strstr_iff)
  with Some show ?thesis by (simp add: name_matches_def del: not_None_eq)
qed

text \<open>
  Claim C6. In every state the registry reaches, for every non-null query name and either
  value of the flag, the lookup by name returns the first descriptor of the traversal that
  has a name, is not unloaded, and whose name equals the query (exact match) or contains it
  as a contiguous substring (otherwise), and returns none when there is no such descriptor.
  With an exact match a descriptor whose name differs from the query, such as a longer name
  the query is a strict substring of, is never returned.
\<close>

theorem image_named_first_match:
  assumes "do_calls env cs init_registry = Some s"
  shows "\<exists>ptrs. traverse s = Some ptrs
      \<and> ksdl_imageNamed s (Some imageName) exactMatch =
          Some (find (\<lambda>p. \<exists>nm. name (images s p) = Some nm \<and> \<not> unloaded (images s p)
                          \<and> (if exactMatch then nm = imageName
                              else (\<exists>pre post. nm = pre @ imageName @ post))) ptrs)
      \<and> (\<forall>p \<in> set ptrs. \<forall>nm. name (images s p) = Some nm \<and> nm \<noteq> imageName \<longrightarrow>
            ksdl_imageNamed s (Some imageName) True \<noteq> Some (Some p))"
proof -
  from assms have l: "linked s" by (rule reachable_linked)
  let ?ptrs = "[1..<Suc (allocated s)]"
  have 1: "traverse s = Some ?ptrs" by (rule traverse_linked [OF l])
  have 2: "ksdl_imageNamed s (Some imageName) exactMatch =
          Some (find (\<lambda>p. \<exists>nm. name (images s p) = Some nm \<and> \<not> unloaded (images s p)
                          \<and> (if exactMatch then nm = imageName
                              else (\<exists>pre post. nm = pre @ imageName @ post))) ?ptrs)"
    unfolding imageNamed_linked [OF l] name_matches_iff ..
  have 3: "\<forall>p \<in> set ?ptrs. \<forall>nm. name (images s p) = Some nm \<and> nm \<noteq> imageName \<longrightarrow>
            ksdl_imageNamed s (Some imageName) True \<noteq> Some (Some p)"
  proof (intro ballI allI impI notI)
    fix p nm
    assume n: "name (images s p) = Some nm \<and> nm \<noteq> imageName"
      and r: "ksdl_imageNamed s (Some imageName) True = Some (Some p)"
    from r have "find (\<lambda>q. name_matches (images s q) imageName True) ?ptrs = Some p"
      by (simp add: imageNamed_linked [OF l])
    then have "name_matches (images s p) imageName True"
      by (metis find_Some_iff)
    with n show False by (simp add: name_matches_iff)
  qed
  from 1 2 3 show ?thesis by blast
qed


lemma ex_named_eval:
  "find (\<lambda>p. name_matches (images ex_state p) ''libexample'' False) [1, 2] = Some 2"
  "find (\<lambda>p. name_matches (images ex_state p) ''libexample'' True) [1, 2] = None"
  "find (\<lambda>p. name_matches (images ex_state p) ''/usr/lib/libexample.dylib'' True) [1, 2] = Some 2"
  "find (\<lambda>p. name_matches (images ex_removed p) ''libexample'' False) [1, 2] = None"
  by code_simp+

text \<open>
  In the example registry the substring \<^verbatim>\<open>libexample\<close> finds the library, an exact
  match on it finds nothing, the full path finds the library, and after the removal the
  substring finds nothing.
\<close>

theorem image_named_first_match_witness:
  "do_calls ex_env ex_calls init_registry = Some ex_state
   \<and> ksdl_imageNamed ex_state (Some ''libexample'') False = Some (Some 2)
   \<and> ksdl_imageNamed ex_state (Some ''libexample'') True = Some None
   \<and> ksdl_imageNamed ex_state (Some ''/usr/lib/libexample.dylib'') True = Some (Some 2)
   \<and> ksdl_imageNamed ex_removed (Some ''libexample'') False = Some None"
proof -
  have R: "ksdl_imageNamed s (Some imageName) exactMatch =
             Some (find (\<lambda>p. name_matches (images s p) imageName exactMatch) [1, 2])"
    if "do_calls ex_env cs init_registry = Some s" and "traverse s = Some [1, 2]"
    for s cs imageName exactMatch
  proof -
    from image_named_first_match [OF that(1), of imageName exactMatch]
    obtain ptrs where "traverse s = Some ptrs"
      and r: "ksdl_imageNamed s (Some imageName) exactMatch =
          Some (find (\<lambda>p. \<exists>nm. name (images s p) = Some nm \<and> \<not> unloaded (images s p)
                          \<and> (if exactMatch then nm = imageName
                              else (\<exists>pre post. nm = pre @ imageName @ post))) ptrs)"
      by blast
    with that(2) have "ptrs = [1, 2]" by simp
    with r show ?thesis unfolding name_matches_iff by simp
  qed
  note A = R [OF ex_state_reached ex_traverse]
  note B = R [OF ex_removed_reached ex_traverse_removed]
  show ?thesis
    by (simp only: A B ex_named_eval ex_state_reached simp_thms)
qed



section \<open>Initialisation\<close>

lemma remove_image_frame:
  assumes "linked s" "remove_image env hdr sl s = Some s'"
  shows "is_image_list_initialized s' = is_image_list_initialized s"
    and "registrations s' = registrations s"
  using remove_image_linked [OF assms(1), of env hdr sl] assms(2) by auto

lemma initialize_registrations:
  assumes "linked s" "\<not> is_image_list_initialized s"
  shows "registrations (ksdl_binary_images_initialize env s) = Suc (registrations s)"
proof -
  let ?s1 = "s\<lparr>is_image_list_initialized := True\<rparr>"
  have l1: "linked ?s1" using assms(1) by (rule linked_set_initialized)
  have i1: "is_image_list_initialized ?s1" by simp
  have "registrations (register_dyld_images env ?s1) = registrations s"
    using register_dyld_images_linked(3) [OF l1 i1, of env] by simp
  moreover have "linked (register_dyld_images env ?s1)"
    by (rule register_dyld_images_linked(1) [OF l1 i1])
  ultimately show ?thesis
    using assms(2) by (simp add: initialize_first register_for_changes_linked)
qed

lemma do_call_initialized:
  assumes "linked s" "do_call env c s = Some s'"
  shows "is_image_list_initialized s' \<longleftrightarrow> is_image_list_initialized s \<or> c = Initialize"
    and "registrations s' =
           (if c = Initialize \<and> \<not> is_image_list_initialized s then Suc (registrations s)
            else registrations s)"
proof -
  show "is_image_list_initialized s' \<longleftrightarrow> is_image_list_initialized s \<or> c = Initialize"
  proof (cases c)
    case (Add hdr sl)
    with assms show ?thesis by (auto simp: add_image_frame)
  next
    case (Remove hdr sl)
    with assms remove_image_frame(1) [OF assms(1)] show ?thesis by auto
  next
    case Initialize
    with assms initialize_linked(2) [OF assms(1), of env] show ?thesis by auto
  qed
  show "registrations s' =
           (if c = Initialize \<and> \<not> is_image_list_initialized s then Suc (registrations s)
            else registrations s)"
  proof (cases c)
    case (Add hdr sl)
    with assms show ?thesis by (auto simp: add_image_frame)
  next
    case (Remove hdr sl)
    with assms remove_image_frame(2) [OF assms(1)] show ?thesis by auto
  next
    case Initialize
    show ?thesis
    proof (cases "is_image_list_initialized s")
      case True
      with Initialize assms show ?thesis by (auto simp: initialize_already)
    next
      case False
      with Initialize assms initialize_registrations [OF assms(1) False, of env]
      show ?thesis by auto
    qed
  qed
qed

lemma do_calls_initialized:
  assumes "linked s" "do_calls env cs s = Some s'"
    and "registrations s = (if is_image_list_initialized s then 1 else 0)"
  shows "(is_image_list_initialized s' \<longleftrightarrow> is_image_list_initialized s \<or> Initialize \<in> set cs)
       \<and> registrations s' = (if is_image_list_initialized s' then 1 else 0)"
  using assms
proof (induction cs arbitrary: s)
  case Nil
  then show ?case by simp
next
  case (Cons c cs)
  from do_call_linked [OF Cons.prems(1), of env c]
  obtain s1 where s1: "do_call env c s = Some s1" "linked s1" by blast
  with Cons.prems(2) have r: "do_calls env cs s1 = Some s'" by simp
  note d = do_call_initialized [OF Cons.prems(1) s1(1)]
  have i1: "registrations s1 = (if is_image_list_initialized s1 then 1 else 0)"
    using d Cons.prems(3) by auto
  from Cons.IH [OF s1(2) r i1] d(1) show ?case by auto
qed

lemma reachable_initialized:
  assumes "do_calls env cs init_registry = Some s"
  shows "is_image_list_initialized s \<longleftrightarrow> Initialize \<in> set cs"
    and "registrations s = (if Initialize \<in> set cs then 1 else 0)"
  using do_calls_initialized [OF linked_init assms]
  by (simp_all add: init_registry_def)

lemma compare_exchange_won:
  "\<not> is_image_list_initialized s \<Longrightarrow>
     compare_exchange_initialized s = (True, s\<lparr>is_image_list_initialized := True\<rparr>)"
  by (simp add: compare_exchange_initialized_def)

lemma traverse_set_initialized:
  "traverse (s\<lparr>is_image_list_initialized := x\<rparr>) = traverse s"
  by (simp add: traverse_def ksdl_get_images_def)

text \<open>
  Claim C10. A call of the initialisation that finds the flag set returns at once and
  leaves every part of the state as it was, in whatever state the registry is. In a state
  the registry reaches: a call that finds the flag clear sets it and then performs the
  image discovery and the registration; after a call the flag is set, so a second call
  changes nothing; the callbacks have been registered exactly once if the initialisation has
  been called at all, however often, and not at all otherwise. Right after the winner's
  compare-and-set, before it has discovered any image, a call by another caller already
  returns with the state unchanged, so with the list as unpopulated as it was.
\<close>

theorem initialize_runs_once:
  assumes "do_calls env cs init_registry = Some s"
  shows "(is_image_list_initialized t \<longrightarrow> ksdl_binary_images_initialize env t = t)
     \<and> (\<not> is_image_list_initialized s \<longrightarrow>
          ksdl_binary_images_initialize env s =
            register_for_changes env
              (register_dyld_images env (s\<lparr>is_image_list_initialized := True\<rparr>))
          \<and> registrations (ksdl_binary_images_initialize env s) = 1)
     \<and> is_image_list_initialized (ksdl_binary_images_initialize env s)
     \<and> ksdl_binary_images_initialize env (ksdl_binary_images_initialize env s)
          = ksdl_binary_images_initialize env s
     \<and> (is_image_list_initialized s \<longleftrightarrow> Initialize \<in> set cs)
     \<and> registrations s = (if Initialize \<in> set cs then 1 else 0)
     \<and> (\<not> is_image_list_initialized s \<longrightarrow>
          fst (compare_exchange_initialized s)
          \<and> ksdl_binary_images_initialize env (snd (compare_exchange_initialized s))
              = snd (compare_exchange_initialized s)
          \<and> traverse (snd (compare_exchange_initialized s)) = traverse s)"
proof -
  from assms have l: "linked s" by (rule reachable_linked)
  note r = reachable_initialized [OF assms]
  have 1: "is_image_list_initialized t \<longrightarrow> ksdl_binary_images_initialize env t = t"
    by (simp add: initialize_already)
  have 2: "\<not> is_image_list_initialized s \<longrightarrow>
          ksdl_binary_images_initialize env s =
            register_for_changes env
              (register_dyld_images env (s\<lparr>is_image_list_initialized := True\<rparr>))
          \<and> registrations (ksdl_binary_images_initialize env s) = 1"
  proof
    assume f: "\<not> is_image_list_initialized s"
    with r have "registrations s = 0" by simp
    with initialize_registrations [OF l f, of env] initialize_first [OF f, of env]
    show "ksdl_binary_images_initialize env s =
            register_for_changes env
              (register_dyld_images env (s\<lparr>is_image_list_initialized := True\<rparr>))
          \<and> registrations (ksdl_binary_images_initialize env s) = 1"
      by simp
  qed
  have 3: "is_image_list_initialized (ksdl_binary_images_initialize env s)"
    by (rule initialize_linked(2) [OF l])
  then have 4: "ksdl_binary_images_initialize env (ksdl_binary_images_initialize env s)
          = ksdl_binary_images_initialize env s"
    by (rule initialize_already)
  have 5: "\<not> is_image_list_initialized s \<longrightarrow>
          fst (compare_exchange_initialized s)
          \<and> ksdl_binary_images_initialize env (snd (compare_exchange_initialized s))
              = snd (compare_exchange_initialized s)
          \<and> traverse (snd (compare_exchange_initialized s)) = traverse s"
    by (simp add: compare_exchange_won initialize_already traverse_set_initialized)
  from 1 2 3 4 r 5 show ?thesis by blast
qed


text \<open>
  With the example platform the first call registers the loader, the executable and the
  library; a second call changes nothing; a caller that loses the race right after the
  winner's compare-and-set returns while the list is still empty.
\<close>

theorem initialize_runs_once_witness:
  "do_calls ex_env [Initialize, Initialize] init_registry
     = Some (ksdl_binary_images_initialize ex_env init_registry)
   \<and> registrations (ksdl_binary_images_initialize ex_env init_registry) = 1
   \<and> traverse (ksdl_binary_images_initialize ex_env init_registry) = Some [1, 2, 3]
   \<and> ksdl_binary_images_initialize ex_env (snd (compare_exchange_initialized init_registry))
        = snd (compare_exchange_initialized init_registry)
   \<and> traverse (snd (compare_exchange_initialized init_registry)) = Some []"
proof -
  have h: "do_calls ex_env [] init_registry = Some init_registry" by simp
  have f: "\<not> is_image_list_initialized init_registry" by (simp add: init_registry_def)
  note T = initialize_runs_once [OF h, where t = init_registry]
  from T have 1: "ksdl_binary_images_initialize ex_env
                    (ksdl_binary_images_initialize ex_env init_registry)
                  = ksdl_binary_images_initialize ex_env init_registry"
    by blast
  from T f have 2: "registrations (ksdl_binary_images_initialize ex_env init_registry) = 1"
    by blast
  have 3: "traverse (ksdl_binary_images_initialize ex_env init_registry) = Some [1, 2, 3]"
    by code_simp
  from T f have 4: "ksdl_binary_images_initialize ex_env
                      (snd (compare_exchange_initialized init_registry))
                    = snd (compare_exchange_initialized init_registry)"
    by blast
  have "traverse init_registry = Some []" by code_simp
  with T f have 5: "traverse (snd (compare_exchange_initialized init_registry)) = Some []"
    by simp
  from 1 2 3 4 5 show ?thesis by simp
qed

end
